theory Spec2Isabelle
  imports Complex_Main
begin

section \<open>NumPy arrays and their errors\<close>

text \<open>
  The two notebooks of the repository (the piecewise-Rossler sweep and the adaptive
  Kuramoto sweep) are embedded function by function. A one-dimensional array is a list;
  node indices, as \<open>np.nonzero\<close> produces them, are natural numbers. Finite floating
  point values are modelled as real numbers: rounding and overflow are not modelled.
  Every exception that NumPy raises on the operations used here is a value of
  \<open>error\<close>, and a function that can raise returns \<open>error + 'a\<close>.
\<close>

datatype error = IndexError | ValueError | ZeroDivisionError

definition bindE :: "error + 'a \<Rightarrow> ('a \<Rightarrow> error + 'b) \<Rightarrow> error + 'b" where
  "bindE m f = (case m of Inl e \<Rightarrow> Inl e | Inr v \<Rightarrow> f v)"

text \<open>\<open>vars[ids]\<close> with an index array: IndexError when an index is out of range.\<close>

definition fancy :: "'a list \<Rightarrow> nat list \<Rightarrow> error + 'a list" where
  "fancy vars ids =
     (if list_all (\<lambda>i. i < length vars) ids then Inr (map (\<lambda>i. vars ! i) ids)
      else Inl IndexError)"

text \<open>
  An elementwise binary operation on two one-dimensional arrays, with NumPy's
  broadcasting: equal lengths combine pointwise, an operand of length one is stretched,
  anything else raises ValueError.
\<close>

definition ew2 :: "('a \<Rightarrow> 'b \<Rightarrow> 'c) \<Rightarrow> 'a list \<Rightarrow> 'b list \<Rightarrow> error + 'c list" where
  "ew2 f xs ys =
     (if length xs = length ys then Inr (map2 f xs ys)
      else if length xs = 1 then Inr (map (f (hd xs)) ys)
      else if length ys = 1 then Inr (map (\<lambda>x. f x (hd ys)) xs)
      else Inl ValueError)"

text \<open>
  \<open>np.bincount(ids, weights=ws, minlength=n)\<close>: the output has
  \<open>max n (max ids + 1)\<close> bins, all zero at first; entry \<open>k\<close> of \<open>ws\<close> is added to
  bin \<open>ids[k]\<close>, in order. ValueError when \<open>ids\<close> and \<open>ws\<close> differ in length.
\<close>

definition bincount :: "nat list \<Rightarrow> 'a::{zero,plus} list \<Rightarrow> nat \<Rightarrow> error + 'a list" where
  "bincount ids ws minlength =
     (if length ids \<noteq> length ws then Inl ValueError
      else Inr (foldl (\<lambda>acc (i, w). acc[i := acc ! i + w])
                  (replicate (fold (\<lambda>i. max (Suc i)) ids minlength) 0) (zip ids ws)))"

section \<open>The coupling evaluator\<close>

text \<open>
  \<^verbatim>\<open>
  def coupling_func(vars, weight, pre_ids, post_ids):
      currents = weight * (vars[pre_ids] - vars[post_ids])
      num_nodes = len(vars)
      Icoup = np.bincount(post_ids, weights=currents, minlength=num_nodes)
      return Icoup
  \<close>
\<close>

definition coupling_func :: "real list \<Rightarrow> real \<Rightarrow> nat list \<Rightarrow> nat list \<Rightarrow> error + real list" where
  "coupling_func vars weight pre_ids post_ids =
     bindE (fancy vars pre_ids) (\<lambda>src.
     bindE (fancy vars post_ids) (\<lambda>tgt.
     bindE (ew2 (-) src tgt) (\<lambda>d.
       let currents = map ((*) weight) d;
           num_nodes = length vars
       in bincount post_ids currents num_nodes)))"

section \<open>Integrators\<close>

text \<open>
  Both notebooks define \<open>RK4\<close> with the same body, and the second one defines
  \<open>Heun\<close>; they are applied to a \<open>3 \<times> N\<close> array in the first notebook and to a
  one-dimensional array in the second. The schemes are therefore written once, over the
  array arithmetic of the caller: \<open>add\<close> is \<open>+\<close> on arrays, \<open>iadd\<close> is the in-place
  \<open>+=\<close> (whose result must have the shape of its left operand) and \<open>smul\<close> is
  scalar \<open>*\<close> array. The arrays are mutated in place by \<open>x0 += ...\<close>; the model
  returns the new contents of \<open>x0\<close>. Next to it, it returns the list of the points at
  which the vector field was evaluated, in the order of the calls: \<open>call\<close> is the only
  place where the vector field is applied, and each application appends its arguments.
  \<^verbatim>\<open>
  def RK4(fun, x0, t, dt, *args):
      k1 = fun(x0, t, *args)
      k2 = fun(x0 + (dt / 2.) * k1, t + (dt / 2.), *args)
      k3 = fun(x0 + (dt / 2.) * k2, t + (dt / 2.), *args)
      k4 = fun(x0 + dt * k3, t + dt, *args)
      x0 += (dt / 6.) * (k1 + 2 * k2 + 2 * k3 + k4)

  def Heun(fun, x0, t, dt, *args):
      k1 = fun(x0, t, *args)
      x_pred = x0 + dt * k1
      k2 = fun(x_pred, t + dt, *args)
      x0 += 0.5 * dt * (k1 + k2)
      return x0
  \<close>
  The \<open>RK4\<close> of the first notebook ends with \<open>return x0\<close> in addition. The extra
  arguments \<open>*args\<close> are closed over by the caller.
\<close>

type_synonym 'v evlog = "('v \<times> real) list"

definition call ::
  "('v \<Rightarrow> real \<Rightarrow> error + 'v) \<Rightarrow> 'v \<Rightarrow> real \<Rightarrow> 'v evlog \<Rightarrow> error + ('v \<times> 'v evlog)" where
  "call f x t evs = bindE (f x t) (\<lambda>k. Inr (k, evs @ [(x, t)]))"

definition RK4_scheme ::
  "('v \<Rightarrow> 'v \<Rightarrow> error + 'v) \<Rightarrow> ('v \<Rightarrow> 'v \<Rightarrow> error + 'v) \<Rightarrow> (real \<Rightarrow> 'v \<Rightarrow> 'v) \<Rightarrow>
   ('v \<Rightarrow> real \<Rightarrow> error + 'v) \<Rightarrow> 'v \<Rightarrow> real \<Rightarrow> real \<Rightarrow> error + ('v \<times> 'v evlog)" where
  "RK4_scheme add iadd smul f x0 t dt =
     bindE (call f x0 t []) (\<lambda>(k1, l1).
     bindE (add x0 (smul (dt / 2) k1)) (\<lambda>x1.
     bindE (call f x1 (t + dt / 2) l1) (\<lambda>(k2, l2).
     bindE (add x0 (smul (dt / 2) k2)) (\<lambda>x2.
     bindE (call f x2 (t + dt / 2) l2) (\<lambda>(k3, l3).
     bindE (add x0 (smul dt k3)) (\<lambda>x3.
     bindE (call f x3 (t + dt) l3) (\<lambda>(k4, l4).
     bindE (add k1 (smul 2 k2)) (\<lambda>s1.
     bindE (add s1 (smul 2 k3)) (\<lambda>s2.
     bindE (add s2 k4) (\<lambda>s3.
     bindE (iadd x0 (smul (dt / 6) s3)) (\<lambda>x0'.
     Inr (x0', l4))))))))))))"

definition Heun_scheme ::
  "('v \<Rightarrow> 'v \<Rightarrow> error + 'v) \<Rightarrow> ('v \<Rightarrow> 'v \<Rightarrow> error + 'v) \<Rightarrow> (real \<Rightarrow> 'v \<Rightarrow> 'v) \<Rightarrow>
   ('v \<Rightarrow> real \<Rightarrow> error + 'v) \<Rightarrow> 'v \<Rightarrow> real \<Rightarrow> real \<Rightarrow> error + ('v \<times> 'v evlog)" where
  "Heun_scheme add iadd smul f x0 t dt =
     bindE (call f x0 t []) (\<lambda>(k1, l1).
     bindE (add x0 (smul dt k1)) (\<lambda>x_pred.
     bindE (call f x_pred (t + dt) l1) (\<lambda>(k2, l2).
     bindE (add k1 k2) (\<lambda>s.
     bindE (iadd x0 (smul (0.5 * dt) s)) (\<lambda>x0'.
     Inr (x0', l2))))))"

text \<open>\<open>for _ in range(n): body\<close>, stopping at the first exception.\<close>

fun iterE :: "nat \<Rightarrow> ('s \<Rightarrow> error + 's) \<Rightarrow> 's \<Rightarrow> error + 's" where
  "iterE 0 body s = Inr s"
| "iterE (Suc n) body s = bindE (body s) (iterE n body)"

section \<open>The piecewise-Rossler notebook\<close>

text \<open>
  The node state \<open>vars_nodes\<close> is a \<open>3 \<times> N\<close> array, a list of its rows. Arithmetic on
  two such arrays is modelled for operands of the same shape, which is all that the
  vector field of this notebook produces (\<open>res = np.zeros_like(vars)\<close>); operands of
  different shapes are answered with ValueError, NumPy's broadcasting between
  two-dimensional shapes not being modelled.
\<close>

type_synonym mat = "real list list"

definition msmul :: "real \<Rightarrow> mat \<Rightarrow> mat" where
  "msmul c A = map (map ((*) c)) A"

definition mplus :: "mat \<Rightarrow> mat \<Rightarrow> mat" where
  "mplus A B = map2 (map2 (+)) A B"

definition madd :: "mat \<Rightarrow> mat \<Rightarrow> error + mat" where
  "madd A B = (if map length A = map length B then Inr (mplus A B) else Inl ValueError)"

definition RK4 ::
  "(mat \<Rightarrow> real \<Rightarrow> error + mat) \<Rightarrow> mat \<Rightarrow> real \<Rightarrow> real \<Rightarrow> error + (mat \<times> mat evlog)" where
  "RK4 f x0 t dt = RK4_scheme madd madd msmul f x0 t dt"

text \<open>\<open>res[i] = v\<close> on a row of length \<open>n\<close>: \<open>v\<close> is broadcast to the row.\<close>

definition setrow :: "nat \<Rightarrow> 'a list \<Rightarrow> error + 'a list" where
  "setrow n v =
     (if length v = n then Inr v
      else if length v = 1 then Inr (replicate n (hd v))
      else Inl ValueError)"

text \<open>
  \<^verbatim>\<open>
  def piecewise_Rossler(vars, t, I, alpha, beta, R, mu, gamma):
      res = np.zeros_like(vars)
      x, y, z = vars
      g_x = np.where(x <= 3., 0., mu*(x - 3.))
      dx_dt = gamma * (-alpha*(x - I) - z - beta*y)
      dy_dt = gamma * (x - (0.02 - 10/R)*y)
      dz_dt = gamma * (g_x - z)
      res[0] = dx_dt
      res[1] = dy_dt
      res[2] = dz_dt
      return res
  \<close>
  \<open>I\<close> and \<open>gamma\<close> are arrays with one entry per node, the other parameters are
  scalars. The unpacking needs exactly three rows; the scalar division \<open>10/R\<close> raises
  ZeroDivisionError for \<open>R = 0\<close>.
\<close>

definition piecewise_Rossler ::
  "mat \<Rightarrow> real \<Rightarrow> real list \<Rightarrow> real \<Rightarrow> real \<Rightarrow> real \<Rightarrow> real \<Rightarrow> real list \<Rightarrow> error + mat" where
  "piecewise_Rossler vars t I alpha beta R mu gamma =
     (case vars of
        [x, y, z] \<Rightarrow>
          let g_x = map (\<lambda>x. if x \<le> 3 then 0 else mu * (x - 3)) x in
          bindE (ew2 (-) x I) (\<lambda>xI.
          bindE (ew2 (-) (map ((*) (- alpha)) xI) z) (\<lambda>a.
          bindE (ew2 (-) a (map ((*) beta) y)) (\<lambda>b.
          bindE (ew2 (*) gamma b) (\<lambda>dx_dt.
          if R = 0 then Inl ZeroDivisionError else
          bindE (ew2 (-) x (map ((*) (0.02 - 10 / R)) y)) (\<lambda>c.
          bindE (ew2 (*) gamma c) (\<lambda>dy_dt.
          bindE (ew2 (-) g_x z) (\<lambda>d.
          bindE (ew2 (*) gamma d) (\<lambda>dz_dt.
          bindE (setrow (length x) dx_dt) (\<lambda>r0.
          bindE (setrow (length x) dy_dt) (\<lambda>r1.
          bindE (setrow (length x) dz_dt) (\<lambda>r2.
          Inr [r0, r1, r2])))))))))))
      | _ \<Rightarrow> Inl ValueError)"

text \<open>
  The topology: \<open>np.nonzero(A_adj)\<close> lists the positions of the non-zero entries in
  row-major order, rows first; \<open>A_adj.sum(axis=1)\<close> is the list of the row sums.
\<close>

definition nonzero :: "mat \<Rightarrow> nat list \<times> nat list" where
  "nonzero A =
     (let ps = concat (map (\<lambda>i. map (\<lambda>j. (i, j))
                 (filter (\<lambda>j. A ! i ! j \<noteq> 0) [0..<length (A ! i)])) [0..<length A])
      in (map fst ps, map snd ps))"

definition row_sums :: "mat \<Rightarrow> real list" where
  "row_sums A = map sum_list A"

text \<open>\<open>vars_nodes[i]\<close>: row \<open>i\<close> of the state.\<close>

definition row :: "mat \<Rightarrow> nat \<Rightarrow> error + real list" where
  "row vars i = (if i < length vars then Inr (vars ! i) else Inl IndexError)"

text \<open>\<open>np.arctan2(y, x)\<close> on finite arguments.\<close>

definition arctan2 :: "real \<Rightarrow> real \<Rightarrow> real" where
  "arctan2 y x =
     (if 0 < x then arctan (y / x)
      else if x < 0 then (if 0 \<le> y then arctan (y / x) + pi else arctan (y / x) - pi)
      else if 0 < y then pi / 2 else if y < 0 then - (pi / 2) else 0)"

text \<open>
  \<open>np.abs(np.sum(np.exp(1j * phi)) / n)\<close>: the division of a complex scalar by the
  integer \<open>n\<close> raises ZeroDivisionError for \<open>n = 0\<close> in the compiled function (plain
  NumPy would answer NaN with a warning).
\<close>

definition mean_field :: "real list \<Rightarrow> nat \<Rightarrow> error + real" where
  "mean_field phi n =
     (if n = 0 then Inl ZeroDivisionError
      else Inr (cmod ((\<Sum>p\<leftarrow>phi. exp (\<i> * complex_of_real p)) / of_nat n)))"

text \<open>
  The sweep driver of the first notebook.
  \<^verbatim>\<open>
  def net(N, A_adj, weight_list):
      alpha = 0.05; beta = 0.5; R = 100; mu = 15; gamma_base = 10000
      x0 = 0.1*np.ones(N); y0 = 0.2*np.ones(N); z0 = 0.3*np.ones(N)
      vars_nodes = np.vstack((x0, y0, z0))
      post_ids, pre_ids = np.nonzero(A_adj)
      degrees = A_adj.sum(axis=1)
      dgamma = 0.2
      gamma = gamma_base * (1 + dgamma * (degrees-1) / N)
      dt=0.0001
      t = 0
      for _ in range(1_0000):
          Icoup = np.zeros(N)
          RK4(piecewise_Rossler, vars_nodes, t, dt, Icoup, alpha, beta, R, mu, gamma)
      S_list = []
      for weight in weight_list:
          for _ in range(1_0000):
              Icoup = coupling_func(vars_nodes[0], weight, pre_ids, post_ids)
              RK4(piecewise_Rossler, vars_nodes, t, dt, Icoup, alpha, beta, R, mu, gamma)
          cal_n = 10_0000
          S = 0.
          for _ in range(cal_n):
              Icoup = coupling_func(vars_nodes[0], weight, pre_ids, post_ids)
              RK4(piecewise_Rossler, vars_nodes, t, dt, Icoup, alpha, beta, R, mu, gamma)
              phi_t =  np.arctan2(vars_nodes[1], vars_nodes[0])
              S += np.abs(np.sum(np.exp(1j * phi_t)) / N) / cal_n
              t += dt
          S_list.append(S)
      return S_list
  \<close>
  The topology and the constants that the loops read are gathered in a record; the loop
  bodies are functions on the mutable variables \<open>vars_nodes\<close>, \<open>t\<close> and \<open>S\<close>.
\<close>

record rossler_net =
  rN :: nat
  r_pre_ids :: "nat list"
  r_post_ids :: "nat list"
  r_gamma :: "real list"

definition r_alpha :: real where "r_alpha = 0.05"

definition r_beta :: real where "r_beta = 0.5"

definition r_R :: real where "r_R = 100"

definition r_mu :: real where "r_mu = 15"

definition r_gamma_base :: real where "r_gamma_base = 10000"

definition r_dgamma :: real where "r_dgamma = 0.2"

definition r_dt :: real where "r_dt = 0.0001"

definition r_cal_n :: nat where "r_cal_n = 100000"

definition rossler_init :: "nat \<Rightarrow> mat" where
  "rossler_init N = [replicate N 0.1, replicate N 0.2, replicate N 0.3]"

definition rossler_setup :: "nat \<Rightarrow> mat \<Rightarrow> rossler_net" where
  "rossler_setup N A_adj =
     (let (post_ids, pre_ids) = nonzero A_adj;
          degrees = row_sums A_adj;
          gamma = map (\<lambda>d. r_gamma_base * (1 + r_dgamma * (d - 1) / real N)) degrees
      in \<lparr>rN = N, r_pre_ids = pre_ids, r_post_ids = post_ids, r_gamma = gamma\<rparr>)"

text \<open>One integration step of the state with a given coupling input.\<close>

definition rossler_RK4 :: "rossler_net \<Rightarrow> real list \<Rightarrow> mat \<Rightarrow> real \<Rightarrow> error + mat" where
  "rossler_RK4 P Icoup vars_nodes t =
     bindE (RK4 (\<lambda>v s. piecewise_Rossler v s Icoup r_alpha r_beta r_R r_mu (r_gamma P))
              vars_nodes t r_dt)
       (\<lambda>(vars', evs). Inr vars')"

text \<open>The body of the first loop: the coupling input is \<open>np.zeros(N)\<close>.\<close>

definition warmup_step :: "rossler_net \<Rightarrow> real \<Rightarrow> mat \<Rightarrow> error + mat" where
  "warmup_step P t vars_nodes = rossler_RK4 P (replicate (rN P) 0) vars_nodes t"

text \<open>The body of the relaxation loop of one coupling strength.\<close>

definition coupled_step :: "rossler_net \<Rightarrow> real \<Rightarrow> real \<Rightarrow> mat \<Rightarrow> error + mat" where
  "coupled_step P weight t vars_nodes =
     bindE (row vars_nodes 0) (\<lambda>x.
     bindE (coupling_func x weight (r_pre_ids P) (r_post_ids P)) (\<lambda>Icoup.
     rossler_RK4 P Icoup vars_nodes t))"

text \<open>The body of the accumulation loop, on \<open>(vars_nodes, t, S)\<close>.\<close>

definition accum_step ::
  "rossler_net \<Rightarrow> real \<Rightarrow> mat \<times> real \<times> real \<Rightarrow> error + (mat \<times> real \<times> real)" where
  "accum_step P weight = (\<lambda>(vars_nodes, t, S).
     bindE (coupled_step P weight t vars_nodes) (\<lambda>vars'.
     bindE (row vars' 1) (\<lambda>y.
     bindE (row vars' 0) (\<lambda>x.
     bindE (ew2 arctan2 y x) (\<lambda>phi_t.
     bindE (mean_field phi_t (rN P)) (\<lambda>r.
     Inr (vars', t + r_dt, S + r / real r_cal_n)))))))"

text \<open>
  The loop over the coupling strengths. Besides the measure \<open>S\<close> of each value the model
  records the state with which the value's relaxation loop was entered and the state at
  the end of its accumulation loop; \<open>net\<close> returns the measures alone.
\<close>

record ('v, 'm) sweep_point =
  entry_state :: 'v
  exit_state :: 'v
  sync_measure :: 'm

fun rossler_sweep ::
  "rossler_net \<Rightarrow> mat \<Rightarrow> real \<Rightarrow> real list \<Rightarrow> error + (mat, real) sweep_point list" where
  "rossler_sweep P vars_nodes t [] = Inr []"
| "rossler_sweep P vars_nodes t (weight # ws) =
     bindE (iterE 10000 (coupled_step P weight t) vars_nodes) (\<lambda>v1.
     bindE (iterE r_cal_n (accum_step P weight) (v1, t, 0)) (\<lambda>(v2, t2, S).
     bindE (rossler_sweep P v2 t2 ws) (\<lambda>rest.
     Inr (\<lparr>entry_state = vars_nodes, exit_state = v2, sync_measure = S\<rparr> # rest))))"

definition net_trace :: "nat \<Rightarrow> mat \<Rightarrow> real list \<Rightarrow> error + (mat, real) sweep_point list" where
  "net_trace N A_adj weight_list =
     (let P = rossler_setup N A_adj in
      bindE (iterE 10000 (warmup_step P 0) (rossler_init N)) (\<lambda>vars_nodes.
      rossler_sweep P vars_nodes 0 weight_list))"

definition net :: "nat \<Rightarrow> mat \<Rightarrow> real list \<Rightarrow> error + real list" where
  "net N A_adj weight_list =
     bindE (net_trace N A_adj weight_list) (\<lambda>tr. Inr (map sync_measure tr))"

section \<open>The adaptive Kuramoto notebook\<close>

text \<open>
  The local order parameter divides by the raw degree, so this notebook can produce
  values that are not finite. A float is here a finite real or \<open>NonFinite\<close>, which
  stands for NaN and for the infinities together: the operations of this notebook
  (sums, products, differences, sine, cosine, square root, division by a finite number)
  answer a non-finite value exactly when an argument is non-finite, a division is by
  zero or a square root is taken of a negative number, so the three need not be told
  apart.
\<close>

datatype fl = Fin real | NonFinite

instantiation fl :: comm_monoid_add
begin

definition zero_fl :: fl where
  "zero_fl = Fin 0"

fun plus_fl :: "fl \<Rightarrow> fl \<Rightarrow> fl" where
  "plus_fl (Fin a) (Fin b) = Fin (a + b)"
| "plus_fl _ _ = NonFinite"

instance
proof
  fix a b c :: fl
  show "a + b + c = a + (b + c)"
    by (cases a; cases b; cases c) simp_all
  show "a + b = b + a"
    by (cases a; cases b) simp_all
  show "0 + a = a"
    by (cases a) (simp_all add: zero_fl_def)
qed

end

instantiation fl :: "{minus,times}"
begin

fun minus_fl :: "fl \<Rightarrow> fl \<Rightarrow> fl" where
  "minus_fl (Fin a) (Fin b) = Fin (a - b)"
| "minus_fl _ _ = NonFinite"

fun times_fl :: "fl \<Rightarrow> fl \<Rightarrow> fl" where
  "times_fl (Fin a) (Fin b) = Fin (a * b)"
| "times_fl _ _ = NonFinite"

instance ..

end

fun fsin :: "fl \<Rightarrow> fl" where
  "fsin (Fin a) = Fin (sin a)"
| "fsin NonFinite = NonFinite"

fun fcos :: "fl \<Rightarrow> fl" where
  "fcos (Fin a) = Fin (cos a)"
| "fcos NonFinite = NonFinite"

fun fsqrt :: "fl \<Rightarrow> fl" where
  "fsqrt (Fin a) = (if a < 0 then NonFinite else Fin (sqrt a))"
| "fsqrt NonFinite = NonFinite"

text \<open>Division of array entries by a finite number: by zero it answers NaN or an infinity.\<close>

fun fdiv :: "fl \<Rightarrow> real \<Rightarrow> fl" where
  "fdiv (Fin a) d = (if d = 0 then NonFinite else Fin (a / d))"
| "fdiv NonFinite d = NonFinite"

text \<open>The finite values of an array, when all its entries are finite.\<close>

fun finite_values :: "fl list \<Rightarrow> real list option" where
  "finite_values [] = Some []"
| "finite_values (Fin a # xs) = map_option ((#) a) (finite_values xs)"
| "finite_values (NonFinite # xs) = None"

text \<open>Arithmetic on one-dimensional arrays, and the two integrators on them.\<close>

definition vsmul :: "real \<Rightarrow> fl list \<Rightarrow> fl list" where
  "vsmul c v = map ((*) (Fin c)) v"

definition vadd :: "fl list \<Rightarrow> fl list \<Rightarrow> error + fl list" where
  "vadd u v = ew2 (+) u v"

definition viadd :: "fl list \<Rightarrow> fl list \<Rightarrow> error + fl list" where
  "viadd x0 v =
     (if length v = length x0 then Inr (map2 (+) x0 v)
      else if length v = 1 then Inr (map (\<lambda>a. a + hd v) x0)
      else Inl ValueError)"

definition RK4_K ::
  "(fl list \<Rightarrow> real \<Rightarrow> error + fl list) \<Rightarrow> fl list \<Rightarrow> real \<Rightarrow> real \<Rightarrow>
   error + (fl list \<times> fl list evlog)" where
  "RK4_K f x0 t dt = RK4_scheme vadd viadd vsmul f x0 t dt"

definition Heun ::
  "(fl list \<Rightarrow> real \<Rightarrow> error + fl list) \<Rightarrow> fl list \<Rightarrow> real \<Rightarrow> real \<Rightarrow>
   error + (fl list \<times> fl list evlog)" where
  "Heun f x0 t dt = Heun_scheme vadd viadd vsmul f x0 t dt"

text \<open>
  \<^verbatim>\<open>
  def kuramoto(vars, t, omega, c, pre_ids, post_ids):
      currents = np.sin(vars[pre_ids]- vars[post_ids])
      num_nodes = len(vars)
      I_couple = np.bincount(post_ids, weights=currents, minlength=num_nodes)
      dvars_dt = omega + c * I_couple
      return dvars_dt
  \<close>
\<close>

definition kuramoto ::
  "fl list \<Rightarrow> real \<Rightarrow> fl list \<Rightarrow> fl list \<Rightarrow> nat list \<Rightarrow> nat list \<Rightarrow> error + fl list" where
  "kuramoto vars t omega c pre_ids post_ids =
     bindE (fancy vars pre_ids) (\<lambda>src.
     bindE (fancy vars post_ids) (\<lambda>tgt.
     bindE (ew2 (-) src tgt) (\<lambda>d.
       let currents = map fsin d;
           num_nodes = length vars
       in bindE (bincount post_ids currents num_nodes) (\<lambda>I_couple.
          bindE (ew2 (*) c I_couple) (\<lambda>cI.
          ew2 (+) omega cI)))))"

text \<open>
  The vector field as the integrators call it, \<open>fun(x, t, *args)\<close> with the extra
  arguments \<open>(omega, weights, pre_ids, post_ids)\<close>.
\<close>

definition kuramoto_field ::
  "fl list \<Rightarrow> fl list \<Rightarrow> nat list \<Rightarrow> nat list \<Rightarrow> fl list \<Rightarrow> real \<Rightarrow> error + fl list" where
  "kuramoto_field omega c pre_ids post_ids = (\<lambda>vars t. kuramoto vars t omega c pre_ids post_ids)"

text \<open>
  \<^verbatim>\<open>
  def order_parameter(vars):
      N = len(vars)
      r = np.abs(np.sum(np.exp(1j * vars)) / N)
      return r
  \<close>
  A non-finite phase makes the sum, and so the result, NaN.
\<close>

definition order_parameter :: "fl list \<Rightarrow> error + fl" where
  "order_parameter vars =
     (let N = length vars in
      case finite_values vars of
        None \<Rightarrow> Inr NonFinite
      | Some phi \<Rightarrow> map_sum id Fin (mean_field phi N))"

text \<open>
  \<^verbatim>\<open>
  def local_order_parameter(vars, pre_ids, post_ids, degree_lit):
      N = len(vars)
      r_temp = np.exp(1j * vars[pre_ids])
      real_part = r_temp.real
      imag_part = r_temp.imag
      sum_real = np.bincount(post_ids, weights=real_part, minlength=N)
      sum_imag = np.bincount(post_ids, weights=imag_part, minlength=N)
      r_sum_abs = np.sqrt(sum_real**2 + sum_imag**2)
      r_local = r_sum_abs / degree_lit
      return r_local
  \<close>
  The degrees are row sums of the adjacency matrix, finite numbers.
\<close>

definition local_order_parameter ::
  "fl list \<Rightarrow> nat list \<Rightarrow> nat list \<Rightarrow> real list \<Rightarrow> error + fl list" where
  "local_order_parameter vars pre_ids post_ids degree_lit =
     (let N = length vars in
      bindE (fancy vars pre_ids) (\<lambda>src.
        let real_part = map fcos src;
            imag_part = map fsin src
        in bindE (bincount post_ids real_part N) (\<lambda>sum_real.
           bindE (bincount post_ids imag_part N) (\<lambda>sum_imag.
           bindE (ew2 (+) (map (\<lambda>a. a * a) sum_real) (map (\<lambda>a. a * a) sum_imag)) (\<lambda>sq.
             let r_sum_abs = map fsqrt sq
             in ew2 fdiv r_sum_abs degree_lit)))))"

text \<open>
  \<open>xs[ids] = vals\<close> with an index array: the entries are stored in order, so that the
  last one wins on a repeated index; \<open>vals\<close> is broadcast to the shape of \<open>ids\<close>.
\<close>

definition setitem :: "'a list \<Rightarrow> nat list \<Rightarrow> 'a list \<Rightarrow> error + 'a list" where
  "setitem xs ids vals =
     (if \<not> list_all (\<lambda>i. i < length xs) ids then Inl IndexError
      else bindE (setrow (length ids) vals) (\<lambda>vs.
           Inr (foldl (\<lambda>acc (i, v). acc[i := v]) xs (zip ids vs))))"

text \<open>
  The sweep driver of the second notebook, with \<open>method = Heun\<close>. Its random draws are
  inputs of the model: the natural frequencies \<open>omega\<close>, the initial phases and the
  shuffled index array \<open>idx\<close>.
  \<^verbatim>\<open>
  def net(N, A_adj, w_list):
      omega = np.random.uniform(-1., 1., N)
      vars_nodes = np.random.uniform(-np.pi, np.pi, N)
      dt = 0.05
      post_ids, pre_ids = np.nonzero(A_adj)
      degrees = A_adj.sum(axis=1)
      f_adaptive = 1.
      N_adaptive = int(f_adaptive*N)
      idx = np.arange(N)
      np.random.shuffle(idx)
      Nodes_adaptive = np.sort(idx[:N_adaptive])
      r_list = []
      for w in w_list:
          weights = w * np.ones(N)
          t = 0.
          for i in range(200_00):
              r_local = local_order_parameter(vars_nodes, pre_ids, post_ids, degrees)
              weights[Nodes_adaptive] = w * r_local[Nodes_adaptive]
              method(kuramoto, vars_nodes, t, dt, omega, weights, pre_ids, post_ids)
          r = 0.
          cal_n = 3000_00
          for i in range(cal_n):
              r_local = local_order_parameter(vars_nodes, pre_ids, post_ids, degrees)
              weights[Nodes_adaptive] = w * r_local[Nodes_adaptive]
              method(kuramoto, vars_nodes, t, dt, omega, weights, pre_ids, post_ids)
              t += dt
              r += order_parameter(vars_nodes)/cal_n
          r_list.append(r)
      return r_list
  \<close>
\<close>

record kuramoto_net =
  k_omega :: "fl list"
  k_pre_ids :: "nat list"
  k_post_ids :: "nat list"
  k_degrees :: "real list"
  k_Nodes_adaptive :: "nat list"

definition k_dt :: real where "k_dt = 0.05"

definition k_cal_n :: nat where "k_cal_n = 300000"

definition f_adaptive :: real where "f_adaptive = 1"

definition kuramoto_setup :: "nat \<Rightarrow> mat \<Rightarrow> real list \<Rightarrow> nat list \<Rightarrow> kuramoto_net" where
  "kuramoto_setup N A_adj omega idx =
     (let (post_ids, pre_ids) = nonzero A_adj;
          degrees = row_sums A_adj;
          N_adaptive = nat \<lfloor>f_adaptive * real N\<rfloor>;
          Nodes_adaptive = sort (take N_adaptive idx)
      in \<lparr>k_omega = map Fin omega, k_pre_ids = pre_ids, k_post_ids = post_ids,
          k_degrees = degrees, k_Nodes_adaptive = Nodes_adaptive\<rparr>)"

text \<open>
  The three statements that both inner loops share, on \<open>(vars_nodes, weights)\<close>: the
  local order parameter of the current state, the overwriting of the adaptive nodes'
  weights, and the integration step with the new weights.
\<close>

definition adaptive_step ::
  "kuramoto_net \<Rightarrow> real \<Rightarrow> real \<Rightarrow> fl list \<times> fl list \<Rightarrow> error + (fl list \<times> fl list)" where
  "adaptive_step P w t = (\<lambda>(vars_nodes, weights).
     bindE (local_order_parameter vars_nodes (k_pre_ids P) (k_post_ids P) (k_degrees P))
       (\<lambda>r_local.
     bindE (fancy r_local (k_Nodes_adaptive P)) (\<lambda>rl.
     bindE (setitem weights (k_Nodes_adaptive P) (map ((*) (Fin w)) rl)) (\<lambda>weights'.
     bindE (Heun (kuramoto_field (k_omega P) weights' (k_pre_ids P) (k_post_ids P))
              vars_nodes t k_dt) (\<lambda>(vars', evs).
     Inr (vars', weights'))))))"

text \<open>The body of the accumulation loop, on \<open>(vars_nodes, weights, t, r)\<close>.\<close>

definition k_accum_step ::
  "kuramoto_net \<Rightarrow> real \<Rightarrow> fl list \<times> fl list \<times> real \<times> fl \<Rightarrow>
   error + (fl list \<times> fl list \<times> real \<times> fl)" where
  "k_accum_step P w = (\<lambda>(vars_nodes, weights, t, r).
     bindE (adaptive_step P w t (vars_nodes, weights)) (\<lambda>(vars', weights').
     bindE (order_parameter vars') (\<lambda>r1.
     Inr (vars', weights', t + k_dt, r + fdiv r1 (real k_cal_n)))))"

fun kuramoto_sweep ::
  "kuramoto_net \<Rightarrow> nat \<Rightarrow> fl list \<Rightarrow> real list \<Rightarrow> error + (fl list, fl) sweep_point list" where
  "kuramoto_sweep P N vars_nodes [] = Inr []"
| "kuramoto_sweep P N vars_nodes (w # ws) =
     (let weights = map ((*) (Fin w)) (replicate N (Fin 1)) in
      bindE (iterE 20000 (adaptive_step P w 0) (vars_nodes, weights)) (\<lambda>(v1, weights1).
      bindE (iterE k_cal_n (k_accum_step P w) (v1, weights1, 0, Fin 0)) (\<lambda>(v2, weights2, t2, r).
      bindE (kuramoto_sweep P N v2 ws) (\<lambda>rest.
      Inr (\<lparr>entry_state = vars_nodes, exit_state = v2, sync_measure = r\<rparr> # rest)))))"

definition net_K_trace ::
  "nat \<Rightarrow> mat \<Rightarrow> real list \<Rightarrow> real list \<Rightarrow> real list \<Rightarrow> nat list \<Rightarrow>
   error + (fl list, fl) sweep_point list" where
  "net_K_trace N A_adj w_list omega vars_nodes idx =
     kuramoto_sweep (kuramoto_setup N A_adj omega idx) N (map Fin vars_nodes) w_list"

definition net_K ::
  "nat \<Rightarrow> mat \<Rightarrow> real list \<Rightarrow> real list \<Rightarrow> real list \<Rightarrow> nat list \<Rightarrow> error + fl list" where
  "net_K N A_adj w_list omega vars_nodes idx =
     bindE (net_K_trace N A_adj w_list omega vars_nodes idx) (\<lambda>tr. Inr (map sync_measure tr))"

section \<open>Well-formed inputs\<close>

text \<open>
  The drivers are called with the node count \<open>N\<close> and the \<open>N \<times> N\<close> adjacency matrix of
  the network; the state of the first notebook is a \<open>3 \<times> N\<close> array throughout.
\<close>

definition square_adj :: "nat \<Rightarrow> mat \<Rightarrow> bool" where
  "square_adj N A_adj \<longleftrightarrow> length A_adj = N \<and> list_all (\<lambda>r. length r = N) A_adj"

definition shape3 :: "nat \<Rightarrow> mat \<Rightarrow> bool" where
  "shape3 N vars \<longleftrightarrow> map length vars = [N, N, N]"

text \<open>
  What the setup of the first driver establishes for a square adjacency matrix: one
  frequency scale per node, and edges between node indices.
\<close>

definition rossler_wf :: "nat \<Rightarrow> rossler_net \<Rightarrow> bool" where
  "rossler_wf N P \<longleftrightarrow> rN P = N \<and> length (r_gamma P) = N \<and>
     length (r_pre_ids P) = length (r_post_ids P) \<and>
     (\<forall>i\<in>set (r_pre_ids P). i < N) \<and> (\<forall>i\<in>set (r_post_ids P). i < N)"

text \<open>
  A recorded sweep is linked when each value was entered with the state that the value
  before it left behind, the first one with the state \<open>v\<close>.
\<close>

fun linked :: "'v \<Rightarrow> ('v, 'm) sweep_point list \<Rightarrow> bool" where
  "linked v [] = True"
| "linked v (p # ps) = (entry_state p = v \<and> linked (exit_state p) ps)"

text \<open>
  The same for the second driver, whose adaptive nodes are node indices too. Its loop
  state is the pair of the phases and the weights, one entry per node each.
\<close>

definition kuramoto_wf :: "nat \<Rightarrow> kuramoto_net \<Rightarrow> bool" where
  "kuramoto_wf N P \<longleftrightarrow> length (k_omega P) = N \<and> length (k_degrees P) = N \<and>
     length (k_pre_ids P) = length (k_post_ids P) \<and>
     (\<forall>i\<in>set (k_pre_ids P). i < N) \<and> (\<forall>i\<in>set (k_post_ids P). i < N) \<and>
     (\<forall>i\<in>set (k_Nodes_adaptive P). i < N)"

definition k_shape :: "nat \<Rightarrow> fl list \<times> fl list \<Rightarrow> bool" where
  "k_shape N = (\<lambda>(vars, weights). length vars = N \<and> length weights = N)"

text \<open>A loop state in which the phase of node \<open>j\<close> is not finite.\<close>

definition k_poisoned :: "nat \<Rightarrow> nat \<Rightarrow> fl list \<times> fl list \<Rightarrow> bool" where
  "k_poisoned N j = (\<lambda>(vars, weights). k_shape N (vars, weights) \<and> j < N \<and> vars ! j = NonFinite)"

section \<open>Properties of the array operations\<close>

lemma bindE_Inr [simp]: "bindE (Inr v) f = f v"
  by (simp add: bindE_def)

lemma bindE_Inl [simp]: "bindE (Inl e) f = Inl e"
  by (simp add: bindE_def)

lemma fancy_ok: "\<forall>i\<in>set ids. i < length vars \<Longrightarrow> fancy vars ids = Inr (map ((!) vars) ids)"
  by (simp add: fancy_def list_all_iff)

lemma ew2_same: "length xs = length ys \<Longrightarrow> ew2 f xs ys = Inr (map2 f xs ys)"
  by (simp add: ew2_def)

lemma fold_max_bound:
  "\<forall>i\<in>set ids. i < n \<Longrightarrow> fold (\<lambda>i. max (Suc i)) ids n = n"
  by (induction ids) (simp_all add: max_def)

lemma foldl_add_length:
  "length (foldl (\<lambda>acc (i, w). acc[i := acc ! i + w]) acc ps) = length acc"
  by (induction ps arbitrary: acc) (simp_all add: split_def)

lemma foldl_add_nth:
  fixes acc :: "'a::comm_monoid_add list"
  shows "j < length acc \<Longrightarrow>
    foldl (\<lambda>acc (i, w). acc[i := acc ! i + w]) acc ps ! j
      = acc ! j + (\<Sum>(i, w)\<leftarrow>ps. if i = j then w else 0)"
proof (induction ps arbitrary: acc)
  case Nil
  then show ?case by simp
next
  case (Cons p ps)
  obtain i w where p: "p = (i, w)" by (cases p)
  show ?case
    using Cons.prems Cons.IH [of "acc[i := acc ! i + w]"]
    by (simp add: p nth_list_update add.assoc)
qed

lemma zip_sum_as_index_sum:
  fixes ws :: "'a::comm_monoid_add list"
  assumes "length ids = length ws"
  shows "(\<Sum>(i, w)\<leftarrow>zip ids ws. if i = j then w else 0)
           = (\<Sum>k | k < length ids \<and> ids ! k = j. ws ! k)"
proof -
  have "zip ids ws = map (\<lambda>k. (ids ! k, ws ! k)) [0..<length ids]"
    using assms by (intro nth_equalityI) simp_all
  then have "(\<Sum>(i, w)\<leftarrow>zip ids ws. if i = j then w else 0)
      = (\<Sum>k\<leftarrow>[0..<length ids]. if ids ! k = j then ws ! k else 0)"
    by (simp add: comp_def)
  also have "\<dots> = (\<Sum>k\<in>{0..<length ids}. if ids ! k = j then ws ! k else 0)"
    by (simp add: interv_sum_list_conv_sum_set_nat)
  also have "\<dots> = (\<Sum>k | k < length ids \<and> ids ! k = j. ws ! k)"
    by (rule sum.mono_neutral_cong_right) auto
  finally show ?thesis .
qed

lemma bincount_ok:
  fixes ws :: "'a::comm_monoid_add list"
  assumes "length ids = length ws" and "\<forall>i\<in>set ids. i < n"
  shows "\<exists>out. bincount ids ws n = Inr out \<and> length out = n \<and>
           (\<forall>j<n. out ! j = (\<Sum>k | k < length ids \<and> ids ! k = j. ws ! k))"
  using assms
  by (simp add: bincount_def fold_max_bound foldl_add_length foldl_add_nth
      zip_sum_as_index_sum)

text \<open>
  Claim C1. For a node-state array, a scalar weight and an edge list whose two index
  arrays have the same length and hold node indices of the array, the coupling
  evaluator returns one entry per node: entry \<open>j\<close> is the sum, over the edges \<open>k\<close>
  that end at \<open>j\<close>, of \<open>weight * (state[source k] - state[target k])\<close>, and it is
  exactly \<open>0\<close> for a node without incoming edge.
\<close>

theorem coupling_func_sum:
  assumes "length pre_ids = length post_ids"
    and "\<forall>i\<in>set pre_ids. i < length vars"
    and "\<forall>i\<in>set post_ids. i < length vars"
  shows "\<exists>Icoup. coupling_func vars weight pre_ids post_ids = Inr Icoup \<and>
           length Icoup = length vars \<and>
           (\<forall>j<length vars.
              Icoup ! j = (\<Sum>k | k < length post_ids \<and> post_ids ! k = j.
                             weight * (vars ! (pre_ids ! k) - vars ! (post_ids ! k))) \<and>
              (j \<notin> set post_ids \<longrightarrow> Icoup ! j = 0))"
proof -
  let ?cur = "map ((*) weight) (map2 (-) (map ((!) vars) pre_ids) (map ((!) vars) post_ids))"
  have len: "length post_ids = length ?cur"
    using assms(1) by simp
  obtain out where out: "bincount post_ids ?cur (length vars) = Inr out"
      "length out = length vars"
      "\<forall>j<length vars. out ! j = (\<Sum>k | k < length post_ids \<and> post_ids ! k = j. ?cur ! k)"
    using bincount_ok [OF len assms(3)] by blast
  have run: "coupling_func vars weight pre_ids post_ids = Inr out"
    using assms out(1) by (simp add: coupling_func_def fancy_ok ew2_same)
  have val: "out ! j = (\<Sum>k | k < length post_ids \<and> post_ids ! k = j.
                 weight * (vars ! (pre_ids ! k) - vars ! (post_ids ! k)))"
    if "j < length vars" for j
  proof -
    have "out ! j = (\<Sum>k | k < length post_ids \<and> post_ids ! k = j. ?cur ! k)"
      using out(3) that by blast
    also have "\<dots> = (\<Sum>k | k < length post_ids \<and> post_ids ! k = j.
                 weight * (vars ! (pre_ids ! k) - vars ! (post_ids ! k)))"
      using assms(1) by (intro sum.cong) simp_all
    finally show ?thesis .
  qed
  have zero: "out ! j = 0" if "j < length vars" "j \<notin> set post_ids" for j
  proof -
    have "{k. k < length post_ids \<and> post_ids ! k = j} = {}"
      using that(2) by (auto simp: in_set_conv_nth)
    then have "(\<Sum>k | k < length post_ids \<and> post_ids ! k = j.
                 weight * (vars ! (pre_ids ! k) - vars ! (post_ids ! k))) = 0"
      by (simp only: sum.empty)
    then show ?thesis using val [OF that(1)] by simp
  qed
  show ?thesis using run out(2) val zero by blast
qed

theorem coupling_func_sum_witness:
  "\<exists>Icoup. coupling_func [1, 3, 7] 2 [1, 0, 2] [0, 1, 1] = Inr Icoup \<and>
     length Icoup = 3 \<and>
     (\<forall>j<3. Icoup ! j = (\<Sum>k | k < 3 \<and> [0, 1, 1] ! k = j.
                2 * ([1, 3, 7] ! ([1, 0, 2] ! k) - [1, 3, 7::real] ! ([0, 1, 1::nat] ! k))) \<and>
             (j \<notin> set [0, 1, 1] \<longrightarrow> Icoup ! j = 0))"
  using coupling_func_sum [of "[1, 0, 2]" "[0, 1, 1]" "[1, 3, 7]" 2]
  by (simp add: eval_nat_numeral)

lemma setrow_same: "length v = n \<Longrightarrow> setrow n v = Inr v"
  by (simp add: setrow_def)

text \<open>
  Claim C2. For every state \<open>(x, y, z)\<close>, coupling input \<open>I\<close> and parameters with
  \<open>R \<noteq> 0\<close>, the piecewise-Rossler vector field returns, node by node,
  \<open>dx/dt = \<gamma> (- \<alpha> (x - I) - z - \<beta> y)\<close>, \<open>dy/dt = \<gamma> (x - (0.02 - 10/R) y)\<close> and
  \<open>dz/dt = \<gamma> (g(x) - z)\<close>, where \<open>g(x) = 0\<close> for \<open>x \<le> 3\<close> and \<open>g(x) = \<mu> (x - 3)\<close>
  for \<open>x > 3\<close>: the threshold is exactly \<open>3\<close> and the term is not smoothed.
\<close>

theorem piecewise_Rossler_field:
  assumes "length x = n" and "length y = n" and "length z = n"
    and "length I = n" and "length gamma = n" and "R \<noteq> 0"
  shows "\<exists>dx dy dz. piecewise_Rossler [x, y, z] t I alpha beta R mu gamma = Inr [dx, dy, dz] \<and>
           length dx = n \<and> length dy = n \<and> length dz = n \<and>
           (\<forall>j<n.
              dx ! j = gamma ! j * (- alpha * (x ! j - I ! j) - z ! j - beta * y ! j) \<and>
              dy ! j = gamma ! j * (x ! j - (0.02 - 10 / R) * y ! j) \<and>
              dz ! j = gamma ! j * ((if x ! j \<le> 3 then 0 else mu * (x ! j - 3)) - z ! j))"
  using assms
  by (simp add: piecewise_Rossler_def ew2_same setrow_same)

theorem piecewise_Rossler_field_witness:
  "\<exists>dx dy dz. piecewise_Rossler [[4], [1], [2]] 0 [1] 1 1 100 15 [2] = Inr [dx, dy, dz] \<and>
           length dx = 1 \<and> length dy = 1 \<and> length dz = 1 \<and>
           (\<forall>j<1.
              dx ! j = [2] ! j * (- 1 * ([4] ! j - [1] ! j) - [2] ! j - 1 * [1] ! j) \<and>
              dy ! j = [2] ! j * ([4] ! j - (0.02 - 10 / 100) * [1] ! j) \<and>
              dz ! j = [2] ! j * ((if [4] ! j \<le> (3::real) then 0 else 15 * ([4] ! j - 3)) - [2] ! j))"
  using piecewise_Rossler_field [of "[4]" 1 "[1]" "[2]" "[1]" "[2]" 100 0 1 1 15]
  by simp

section \<open>Properties of the integrators\<close>

lemma shape_msmul [simp]: "map length (msmul c A) = map length A"
  by (simp add: msmul_def comp_def)

lemma madd_ok: "map length A = map length B \<Longrightarrow> madd A B = Inr (mplus A B)"
  by (simp add: madd_def)

lemma shape_mplus:
  assumes "map length A = map length B"
  shows "map length (mplus A B) = map length A"
  unfolding mplus_def
proof (rule nth_equalityI)
  have len: "length A = length B"
    using assms by (metis length_map)
  show "length (map length (map2 (map2 (+)) A B)) = length (map length A)"
    using len by simp
  fix i assume "i < length (map length (map2 (map2 (+)) A B))"
  then have i: "i < length A" "i < length B" using len by simp_all
  have "length (A ! i) = length (B ! i)"
    using assms i by (metis nth_map)
  then show "map length (map2 (map2 (+)) A B) ! i = map length A ! i"
    using i by simp
qed

lemma nth_mplus:
  assumes "map length A = map length B" and "i < length A" and "j < length (A ! i)"
  shows "mplus A B ! i ! j = A ! i ! j + B ! i ! j"
proof -
  have len: "length A = length B"
    using assms(1) by (metis length_map)
  have "length (A ! i) = length (B ! i)"
    using assms(1,2) len by (metis nth_map)
  then show ?thesis using assms(2,3) len by (simp add: mplus_def)
qed

lemma nth_msmul:
  "i < length A \<Longrightarrow> j < length (A ! i) \<Longrightarrow> msmul c A ! i ! j = c * A ! i ! j"
  by (simp add: msmul_def)

lemma RK4_mat:
  fixes f :: "mat \<Rightarrow> real \<Rightarrow> error + mat"
  assumes f: "\<And>v s. map length v = map length x \<Longrightarrow>
                 \<exists>k. f v s = Inr k \<and> map length k = map length x"
  shows "\<exists>k1 k2 k3 k4 x1 x2 x3 x'.
      f x t = Inr k1 \<and> f x1 (t + dt / 2) = Inr k2 \<and>
      f x2 (t + dt / 2) = Inr k3 \<and> f x3 (t + dt) = Inr k4 \<and>
      RK4 f x t dt = Inr (x', [(x, t), (x1, t + dt / 2), (x2, t + dt / 2), (x3, t + dt)]) \<and>
      map length x1 = map length x \<and> map length x2 = map length x \<and>
      map length x3 = map length x \<and> map length x' = map length x \<and>
      (\<forall>i<length x. \<forall>j<length (x ! i).
         x1 ! i ! j = x ! i ! j + dt / 2 * k1 ! i ! j \<and>
         x2 ! i ! j = x ! i ! j + dt / 2 * k2 ! i ! j \<and>
         x3 ! i ! j = x ! i ! j + dt * k3 ! i ! j \<and>
         x' ! i ! j = x ! i ! j
            + dt / 6 * (k1 ! i ! j + 2 * k2 ! i ! j + 2 * k3 ! i ! j + k4 ! i ! j))"
proof -
  let ?plus = mplus
  obtain k1 where k1: "f x t = Inr k1" "map length k1 = map length x"
    using f [of x t] by auto
  define x1 where "x1 = ?plus x (msmul (dt / 2) k1)"
  have x1: "map length x1 = map length x"
    unfolding x1_def using k1(2) by (simp add: shape_mplus)
  obtain k2 where k2: "f x1 (t + dt / 2) = Inr k2" "map length k2 = map length x"
    using f [OF x1] by auto
  define x2 where "x2 = ?plus x (msmul (dt / 2) k2)"
  have x2: "map length x2 = map length x"
    unfolding x2_def using k2(2) by (simp add: shape_mplus)
  obtain k3 where k3: "f x2 (t + dt / 2) = Inr k3" "map length k3 = map length x"
    using f [OF x2] by auto
  define x3 where "x3 = ?plus x (msmul dt k3)"
  have x3: "map length x3 = map length x"
    unfolding x3_def using k3(2) by (simp add: shape_mplus)
  obtain k4 where k4: "f x3 (t + dt) = Inr k4" "map length k4 = map length x"
    using f [OF x3] by auto
  define s1 where "s1 = ?plus k1 (msmul 2 k2)"
  have s1: "map length s1 = map length x"
    unfolding s1_def using k1(2) k2(2) by (simp add: shape_mplus)
  define s2 where "s2 = ?plus s1 (msmul 2 k3)"
  have s2: "map length s2 = map length x"
    unfolding s2_def using s1 k3(2) by (simp add: shape_mplus)
  define s3 where "s3 = ?plus s2 k4"
  have s3: "map length s3 = map length x"
    unfolding s3_def using s2 k4(2) by (simp add: shape_mplus)
  define x' where "x' = ?plus x (msmul (dt / 6) s3)"
  have x': "map length x' = map length x"
    unfolding x'_def using s3 by (simp add: shape_mplus)
  have run: "RK4 f x t dt
      = Inr (x', [(x, t), (x1, t + dt / 2), (x2, t + dt / 2), (x3, t + dt)])"
    unfolding RK4_def RK4_scheme_def call_def
    using k1 k2 k3 k4 s1 s2 s3
    by (simp add: madd_ok x1_def [symmetric] x2_def [symmetric] x3_def [symmetric]
        s1_def [symmetric] s2_def [symmetric] s3_def [symmetric] x'_def [symmetric])
  have len: "length k1 = length x" "length k2 = length x" "length k3 = length x"
      "length k4 = length x" "length s1 = length x" "length s2 = length x"
      "length s3 = length x"
    using k1(2) k2(2) k3(2) k4(2) s1 s2 s3 by (metis length_map)+
  have vals: "x1 ! i ! j = x ! i ! j + dt / 2 * k1 ! i ! j \<and>
         x2 ! i ! j = x ! i ! j + dt / 2 * k2 ! i ! j \<and>
         x3 ! i ! j = x ! i ! j + dt * k3 ! i ! j \<and>
         x' ! i ! j = x ! i ! j
            + dt / 6 * (k1 ! i ! j + 2 * k2 ! i ! j + 2 * k3 ! i ! j + k4 ! i ! j)"
    if ij: "i < length x" "j < length (x ! i)" for i j
  proof -
    have rows: "length (k1 ! i) = length (x ! i)" "length (k2 ! i) = length (x ! i)"
      "length (k3 ! i) = length (x ! i)" "length (k4 ! i) = length (x ! i)"
      "length (s1 ! i) = length (x ! i)" "length (s2 ! i) = length (x ! i)"
      "length (s3 ! i) = length (x ! i)"
      using k1(2) k2(2) k3(2) k4(2) s1 s2 s3 ij(1) len by (metis nth_map)+
    have e1: "s1 ! i ! j = k1 ! i ! j + 2 * k2 ! i ! j"
      unfolding s1_def using k1(2) k2(2) ij len rows
      by (simp add: nth_mplus nth_msmul)
    have e2: "s2 ! i ! j = s1 ! i ! j + 2 * k3 ! i ! j"
      unfolding s2_def using s1 k3(2) ij len rows
      by (simp add: nth_mplus nth_msmul)
    have e3: "s3 ! i ! j = s2 ! i ! j + k4 ! i ! j"
      unfolding s3_def using s2 k4(2) ij len rows
      by (simp add: nth_mplus)
    have "x' ! i ! j = x ! i ! j + dt / 6 * s3 ! i ! j"
      unfolding x'_def using s3 ij len rows by (simp add: nth_mplus nth_msmul)
    moreover have "x1 ! i ! j = x ! i ! j + dt / 2 * k1 ! i ! j"
      unfolding x1_def using k1(2) ij len rows by (simp add: nth_mplus nth_msmul)
    moreover have "x2 ! i ! j = x ! i ! j + dt / 2 * k2 ! i ! j"
      unfolding x2_def using k2(2) ij len rows by (simp add: nth_mplus nth_msmul)
    moreover have "x3 ! i ! j = x ! i ! j + dt * k3 ! i ! j"
      unfolding x3_def using k3(2) ij len rows by (simp add: nth_mplus nth_msmul)
    ultimately show ?thesis using e1 e2 e3 by simp
  qed
  show ?thesis
    using k1(1) k2(1) k3(1) k4(1) run x1 x2 x3 x' vals by blast
qed

lemma vadd_ok: "length u = length v \<Longrightarrow> vadd u v = Inr (map2 (+) u v)"
  by (simp add: vadd_def ew2_same)

lemma viadd_ok: "length v = length x0 \<Longrightarrow> viadd x0 v = Inr (map2 (+) x0 v)"
  by (simp add: viadd_def)

lemma length_vsmul [simp]: "length (vsmul c v) = length v"
  by (simp add: vsmul_def)

lemma nth_vsmul: "j < length v \<Longrightarrow> vsmul c v ! j = Fin c * v ! j"
  by (simp add: vsmul_def)

lemma RK4_vec:
  fixes g :: "fl list \<Rightarrow> real \<Rightarrow> error + fl list"
  assumes g: "\<And>v s. length v = length y \<Longrightarrow> \<exists>k. g v s = Inr k \<and> length k = length y"
  shows "\<exists>k1 k2 k3 k4 y1 y2 y3 y'.
      g y t = Inr k1 \<and> g y1 (t + dt / 2) = Inr k2 \<and>
      g y2 (t + dt / 2) = Inr k3 \<and> g y3 (t + dt) = Inr k4 \<and>
      RK4_K g y t dt = Inr (y', [(y, t), (y1, t + dt / 2), (y2, t + dt / 2), (y3, t + dt)]) \<and>
      length y1 = length y \<and> length y2 = length y \<and>
      length y3 = length y \<and> length y' = length y \<and>
      (\<forall>j<length y.
         y1 ! j = y ! j + Fin (dt / 2) * k1 ! j \<and>
         y2 ! j = y ! j + Fin (dt / 2) * k2 ! j \<and>
         y3 ! j = y ! j + Fin dt * k3 ! j \<and>
         y' ! j = y ! j + Fin (dt / 6) * (k1 ! j + Fin 2 * k2 ! j + Fin 2 * k3 ! j + k4 ! j))"
proof -
  obtain k1 where k1: "g y t = Inr k1" "length k1 = length y"
    using g [of y t] by auto
  define y1 where "y1 = map2 (+) y (vsmul (dt / 2) k1)"
  have y1: "length y1 = length y"
    unfolding y1_def using k1(2) by simp
  obtain k2 where k2: "g y1 (t + dt / 2) = Inr k2" "length k2 = length y"
    using g [OF y1] by auto
  define y2 where "y2 = map2 (+) y (vsmul (dt / 2) k2)"
  have y2: "length y2 = length y"
    unfolding y2_def using k2(2) by simp
  obtain k3 where k3: "g y2 (t + dt / 2) = Inr k3" "length k3 = length y"
    using g [OF y2] by auto
  define y3 where "y3 = map2 (+) y (vsmul dt k3)"
  have y3: "length y3 = length y"
    unfolding y3_def using k3(2) by simp
  obtain k4 where k4: "g y3 (t + dt) = Inr k4" "length k4 = length y"
    using g [OF y3] by auto
  define s1 where "s1 = map2 (+) k1 (vsmul 2 k2)"
  have s1: "length s1 = length y"
    unfolding s1_def using k1(2) k2(2) by simp
  define s2 where "s2 = map2 (+) s1 (vsmul 2 k3)"
  have s2: "length s2 = length y"
    unfolding s2_def using s1 k3(2) by simp
  define s3 where "s3 = map2 (+) s2 k4"
  have s3: "length s3 = length y"
    unfolding s3_def using s2 k4(2) by simp
  define y' where "y' = map2 (+) y (vsmul (dt / 6) s3)"
  have y': "length y' = length y"
    unfolding y'_def using s3 by simp
  have run: "RK4_K g y t dt
      = Inr (y', [(y, t), (y1, t + dt / 2), (y2, t + dt / 2), (y3, t + dt)])"
    unfolding RK4_K_def RK4_scheme_def call_def
    using k1 k2 k3 k4 s1 s2 s3
    by (simp add: vadd_ok viadd_ok y1_def [symmetric] y2_def [symmetric] y3_def [symmetric]
        s1_def [symmetric] s2_def [symmetric] s3_def [symmetric] y'_def [symmetric])
  have vals: "y1 ! j = y ! j + Fin (dt / 2) * k1 ! j \<and>
         y2 ! j = y ! j + Fin (dt / 2) * k2 ! j \<and>
         y3 ! j = y ! j + Fin dt * k3 ! j \<and>
         y' ! j = y ! j + Fin (dt / 6) * (k1 ! j + Fin 2 * k2 ! j + Fin 2 * k3 ! j + k4 ! j)"
    if j: "j < length y" for j
    unfolding y1_def y2_def y3_def y'_def s3_def s2_def s1_def
    using j k1(2) k2(2) k3(2) k4(2) by (simp add: nth_vsmul)
  show ?thesis
    using k1(1) k2(1) k3(1) k4(1) run y1 y2 y3 y' vals by blast
qed

text \<open>
  Claim C3. One call of either \<open>RK4\<close> (on the \<open>3 \<times> N\<close> state of the first notebook, on
  the phase vector of the second) with a vector field that keeps the shape of the state
  evaluates the field exactly four times: \<open>k1\<close> at \<open>(x, t)\<close>, \<open>k2\<close> and \<open>k3\<close> at the
  predicted states \<open>x + (dt/2) k1\<close> and \<open>x + (dt/2) k2\<close> at time \<open>t + dt/2\<close>, and
  \<open>k4\<close> at \<open>x + dt k3\<close> at time \<open>t + dt\<close>; the state is replaced by
  \<open>x + (dt/6) (k1 + 2 k2 + 2 k3 + k4)\<close>.
\<close>

theorem RK4_step:
  fixes f :: "mat \<Rightarrow> real \<Rightarrow> error + mat" and g :: "fl list \<Rightarrow> real \<Rightarrow> error + fl list"
  assumes "\<And>v s. map length v = map length x \<Longrightarrow>
                 \<exists>k. f v s = Inr k \<and> map length k = map length x"
    and "\<And>v s. length v = length y \<Longrightarrow> \<exists>k. g v s = Inr k \<and> length k = length y"
  shows "(\<exists>k1 k2 k3 k4 x1 x2 x3 x'.
      f x t = Inr k1 \<and> f x1 (t + dt / 2) = Inr k2 \<and>
      f x2 (t + dt / 2) = Inr k3 \<and> f x3 (t + dt) = Inr k4 \<and>
      RK4 f x t dt = Inr (x', [(x, t), (x1, t + dt / 2), (x2, t + dt / 2), (x3, t + dt)]) \<and>
      map length x1 = map length x \<and> map length x2 = map length x \<and>
      map length x3 = map length x \<and> map length x' = map length x \<and>
      (\<forall>i<length x. \<forall>j<length (x ! i).
         x1 ! i ! j = x ! i ! j + dt / 2 * k1 ! i ! j \<and>
         x2 ! i ! j = x ! i ! j + dt / 2 * k2 ! i ! j \<and>
         x3 ! i ! j = x ! i ! j + dt * k3 ! i ! j \<and>
         x' ! i ! j = x ! i ! j
            + dt / 6 * (k1 ! i ! j + 2 * k2 ! i ! j + 2 * k3 ! i ! j + k4 ! i ! j))) \<and>
    (\<exists>k1 k2 k3 k4 y1 y2 y3 y'.
      g y t = Inr k1 \<and> g y1 (t + dt / 2) = Inr k2 \<and>
      g y2 (t + dt / 2) = Inr k3 \<and> g y3 (t + dt) = Inr k4 \<and>
      RK4_K g y t dt = Inr (y', [(y, t), (y1, t + dt / 2), (y2, t + dt / 2), (y3, t + dt)]) \<and>
      length y1 = length y \<and> length y2 = length y \<and>
      length y3 = length y \<and> length y' = length y \<and>
      (\<forall>j<length y.
         y1 ! j = y ! j + Fin (dt / 2) * k1 ! j \<and>
         y2 ! j = y ! j + Fin (dt / 2) * k2 ! j \<and>
         y3 ! j = y ! j + Fin dt * k3 ! j \<and>
         y' ! j = y ! j + Fin (dt / 6) * (k1 ! j + Fin 2 * k2 ! j + Fin 2 * k3 ! j + k4 ! j)))"
  using RK4_mat [of x f t dt] RK4_vec [of y g t dt] assms by blast

theorem RK4_step_witness:
  "\<exists>x1 x2 x3 x' y1 y2 y3 y'.
     RK4 (\<lambda>v s. Inr (msmul 2 v)) [[1, 0]] 0 1
       = Inr (x', [([[1, 0]], 0), (x1, 1 / 2), (x2, 1 / 2), (x3, 1)]) \<and>
     RK4_K (\<lambda>v s. Inr (vsmul 2 v)) [Fin 1] 0 1
       = Inr (y', [([Fin 1], 0), (y1, 1 / 2), (y2, 1 / 2), (y3, 1)])"
proof -
  have h1: "\<exists>k. Inr (msmul 2 v) = Inr k \<and> map length k = map length [[1, 0::real]]"
    if "map length v = map length [[1, 0::real]]" for v :: mat and s :: real
    using that by simp
  have h2: "\<exists>k. Inr (vsmul 2 v) = Inr k \<and> length k = length [Fin 1]"
    if "length v = length [Fin 1]" for v :: "fl list" and s :: real
    using that by simp
  show ?thesis
    using RK4_step [where f = "\<lambda>v s. Inr (msmul 2 v)" and x = "[[1, 0]]"
        and g = "\<lambda>v s. Inr (vsmul 2 v)" and y = "[Fin 1]" and t = 0 and dt = 1, OF h1 h2]
    by simp blast
qed

section \<open>The piecewise-Rossler sweep keeps the shape of its state\<close>

lemma nonzero_valid:
  assumes "square_adj N A"
  shows "length (fst (nonzero A)) = length (snd (nonzero A))"
    and "\<forall>i\<in>set (fst (nonzero A)). i < N"
    and "\<forall>i\<in>set (snd (nonzero A)). i < N"
  using assms
  by (auto simp: nonzero_def square_adj_def Let_def list_all_iff)

lemma iterE_invariant:
  assumes step: "\<And>s. Inv s \<Longrightarrow> \<exists>s'. body s = Inr s' \<and> Inv s'"
    and "Inv s"
  shows "\<exists>s'. iterE n body s = Inr s' \<and> Inv s'"
  using assms(2)
proof (induction n arbitrary: s)
  case 0
  then show ?case by simp
next
  case (Suc n)
  obtain s1 where "body s = Inr s1" "Inv s1"
    using step [OF Suc.prems] by blast
  then show ?case using Suc.IH [of s1] by simp
qed

lemma shape3_rows:
  "shape3 N v \<Longrightarrow> \<exists>x y z. v = [x, y, z] \<and> length x = N \<and> length y = N \<and> length z = N"
  unfolding shape3_def
  by (cases v; cases "tl v"; cases "tl (tl v)"; cases "tl (tl (tl v))") auto

lemma piecewise_Rossler_ok:
  assumes "length x = n" and "length y = n" and "length z = n"
    and "length I = n" and "length gamma = n" and "R \<noteq> 0"
  shows "piecewise_Rossler [x, y, z] t I alpha beta R mu gamma
    = Inr [map2 (*) gamma (map2 (-) (map2 (-) (map ((*) (- alpha)) (map2 (-) x I)) z)
                             (map ((*) beta) y)),
           map2 (*) gamma (map2 (-) x (map ((*) (0.02 - 10 / R)) y)),
           map2 (*) gamma (map2 (-) (map (\<lambda>x. if x \<le> 3 then 0 else mu * (x - 3)) x) z)]"
  using assms
  by (simp add: piecewise_Rossler_def ew2_same setrow_same)

lemma piecewise_Rossler_shape:
  assumes "shape3 N v" and "length I = N" and "length gamma = N" and "R \<noteq> 0"
  shows "\<exists>k. piecewise_Rossler v t I alpha beta R mu gamma = Inr k \<and> shape3 N k"
proof -
  obtain x y z where v: "v = [x, y, z]" "length x = N" "length y = N" "length z = N"
    using shape3_rows [OF assms(1)] by blast
  show ?thesis
    unfolding v(1) piecewise_Rossler_ok [OF v(2,3,4) assms(2,3,4)]
    using v assms by (simp add: shape3_def)
qed

lemma rossler_RK4_shape:
  assumes "shape3 N v" and "length Icoup = N" and "length (r_gamma P) = N"
  shows "\<exists>v'. rossler_RK4 P Icoup v t = Inr v' \<and> shape3 N v'"
proof -
  let ?f = "\<lambda>v s. piecewise_Rossler v s Icoup r_alpha r_beta r_R r_mu (r_gamma P)"
  have f: "\<exists>k. ?f u s = Inr k \<and> map length k = map length v"
    if "map length u = map length v" for u s
  proof -
    have "shape3 N u" using that assms(1) by (simp add: shape3_def)
    then obtain k where "?f u s = Inr k" "shape3 N k"
      using piecewise_Rossler_shape [of N u Icoup "r_gamma P" r_R s r_alpha r_beta r_mu]
        assms(2,3) by (auto simp: r_R_def)
    then show ?thesis using assms(1) by (auto simp: shape3_def)
  qed
  obtain v' evs where "RK4 ?f v t r_dt = Inr (v', evs)" "map length v' = map length v"
    using RK4_mat [of v ?f t r_dt, OF f] by blast
  then show ?thesis
    using assms(1) by (simp add: rossler_RK4_def shape3_def)
qed

lemma coupling_func_len:
  assumes "length pre_ids = length post_ids"
    and "\<forall>i\<in>set pre_ids. i < length vars"
    and "\<forall>i\<in>set post_ids. i < length vars"
  shows "\<exists>Icoup. coupling_func vars weight pre_ids post_ids = Inr Icoup \<and>
           length Icoup = length vars"
proof -
  let ?cur = "map ((*) weight) (map2 (-) (map ((!) vars) pre_ids) (map ((!) vars) post_ids))"
  have len: "length post_ids = length ?cur"
    using assms(1) by simp
  obtain out where "bincount post_ids ?cur (length vars) = Inr out" "length out = length vars"
    using bincount_ok [OF len assms(3)] by blast
  then show ?thesis
    using assms by (simp add: coupling_func_def fancy_ok ew2_same)
qed

lemma rossler_setup_wf: "square_adj N A \<Longrightarrow> rossler_wf N (rossler_setup N A)"
  using nonzero_valid [of N A]
  by (simp add: rossler_wf_def rossler_setup_def split_def row_sums_def square_adj_def Let_def)

lemma warmup_step_shape:
  assumes "rossler_wf N P" and "shape3 N v"
  shows "\<exists>v'. warmup_step P t v = Inr v' \<and> shape3 N v'"
  unfolding warmup_step_def
  using assms by (intro rossler_RK4_shape) (simp_all add: rossler_wf_def)

lemma coupled_step_shape:
  assumes "rossler_wf N P" and "shape3 N v"
  shows "\<exists>v'. coupled_step P weight t v = Inr v' \<and> shape3 N v'"
proof -
  obtain x y z where v: "v = [x, y, z]" "length x = N"
    using shape3_rows [OF assms(2)] by blast
  obtain Icoup where I: "coupling_func x weight (r_pre_ids P) (r_post_ids P) = Inr Icoup"
      "length Icoup = N"
    using coupling_func_len [of "r_pre_ids P" "r_post_ids P" x weight] assms(1) v(2)
    by (auto simp: rossler_wf_def)
  obtain v' where "rossler_RK4 P Icoup v t = Inr v'" "shape3 N v'"
    using rossler_RK4_shape [OF assms(2) I(2), of P t] assms(1)
    by (auto simp: rossler_wf_def)
  then show ?thesis
    using v I by (simp add: coupled_step_def row_def)
qed

lemma mean_field_value:
  "0 < n \<Longrightarrow>
   mean_field phi n = Inr (cmod ((\<Sum>p\<leftarrow>phi. exp (\<i> * complex_of_real p)) / of_nat n))"
  by (simp add: mean_field_def)

lemma linked_nth:
  "linked v tr \<Longrightarrow> Suc k < length tr \<Longrightarrow> entry_state (tr ! Suc k) = exit_state (tr ! k)"
proof (induction tr arbitrary: v k)
  case Nil
  then show ?case by simp
next
  case (Cons p ps)
  show ?case
  proof (cases k)
    case 0
    then show ?thesis using Cons.prems by (cases ps) simp_all
  next
    case (Suc k')
    then show ?thesis using Cons.prems Cons.IH [of "exit_state p" k'] by simp
  qed
qed

lemma linked_hd: "linked v tr \<Longrightarrow> tr \<noteq> [] \<Longrightarrow> entry_state (tr ! 0) = v"
  by (cases tr) simp_all

lemma accum_step_ok:
  assumes "rossler_wf N P" and "0 < N" and "shape3 N v"
  shows "\<exists>x y z. coupled_step P weight t v = Inr [x, y, z] \<and> shape3 N [x, y, z] \<and>
           accum_step P weight (v, t, S)
             = Inr ([x, y, z], t + r_dt,
                 S + cmod ((\<Sum>p\<leftarrow>map2 arctan2 y x. exp (\<i> * complex_of_real p)) / of_nat N)
                       / real r_cal_n)"
proof -
  obtain v' where v': "coupled_step P weight t v = Inr v'" "shape3 N v'"
    using coupled_step_shape [OF assms(1,3)] by blast
  obtain x y z where rows: "v' = [x, y, z]" "length x = N" "length y = N"
    using shape3_rows [OF v'(2)] by blast
  have "rN P = N" using assms(1) by (simp add: rossler_wf_def)
  then have "accum_step P weight (v, t, S)
      = Inr ([x, y, z], t + r_dt,
          S + cmod ((\<Sum>p\<leftarrow>map2 arctan2 y x. exp (\<i> * complex_of_real p)) / of_nat N)
                / real r_cal_n)"
    using v'(1) rows assms(2)
    by (simp add: accum_step_def row_def ew2_same mean_field_value)
  then show ?thesis
    using v' rows(1) by blast
qed

lemma accum_iter:
  assumes "rossler_wf N P" and "0 < N" and "shape3 N v"
  shows "\<exists>v' t' S'. iterE n (accum_step P weight) (v, t, S) = Inr (v', t', S') \<and> shape3 N v'"
proof -
  let ?Inv = "\<lambda>(u, s, a). shape3 N u"
  have step: "\<exists>s'. accum_step P weight s = Inr s' \<and> ?Inv s'" if "?Inv s"
    for s :: "mat \<times> real \<times> real"
  proof -
    obtain u s0 a where s: "s = (u, s0, a)" by (cases s)
    then have "shape3 N u" using that by simp
    from accum_step_ok [OF assms(1,2) this, of weight s0 a] show ?thesis
      unfolding s by auto
  qed
  have "?Inv (v, t, S)" using assms(3) by simp
  from iterE_invariant [of ?Inv "accum_step P weight", OF step this, of n]
  show ?thesis by auto
qed

lemma relax_iter:
  assumes "rossler_wf N P" and "shape3 N v"
  shows "\<exists>v'. iterE n (coupled_step P weight t) v = Inr v' \<and> shape3 N v'"
  using coupled_step_shape [OF assms(1)] assms(2)
  by (rule iterE_invariant)

lemma warmup_iter:
  assumes "rossler_wf N P" and "shape3 N v"
  shows "\<exists>v'. iterE n (warmup_step P t) v = Inr v' \<and> shape3 N v'"
  using warmup_step_shape [OF assms(1)] assms(2)
  by (rule iterE_invariant)

lemma rossler_sweep_run:
  assumes "rossler_wf N P" and "0 < N" and "shape3 N v"
  shows "\<exists>tr ts. rossler_sweep P v t ws = Inr tr \<and> length tr = length ws \<and>
           length ts = Suc (length ws) \<and> ts ! 0 = t \<and> linked v tr \<and>
           (\<forall>k<length ws. \<exists>v1.
              iterE 10000 (coupled_step P (ws ! k) (ts ! k)) (entry_state (tr ! k)) = Inr v1 \<and>
              iterE r_cal_n (accum_step P (ws ! k)) (v1, ts ! k, 0)
                = Inr (exit_state (tr ! k), ts ! Suc k, sync_measure (tr ! k)))"
  using assms(3)
proof (induction ws arbitrary: v t)
  case Nil
  show ?case by (rule exI [of _ "[]"], rule exI [of _ "[t]"]) simp
next
  case (Cons w ws)
  obtain v1 where v1: "iterE 10000 (coupled_step P w t) v = Inr v1" "shape3 N v1"
    using relax_iter [OF assms(1) Cons.prems] by blast
  obtain v2 t2 S where v2: "iterE r_cal_n (accum_step P w) (v1, t, 0) = Inr (v2, t2, S)"
      "shape3 N v2"
    using accum_iter [OF assms(1,2) v1(2)] by blast
  obtain rest ts where rest: "rossler_sweep P v2 t2 ws = Inr rest" "length rest = length ws"
      "length ts = Suc (length ws)" "ts ! 0 = t2" "linked v2 rest"
      "\<forall>k<length ws. \<exists>v1.
          iterE 10000 (coupled_step P (ws ! k) (ts ! k)) (entry_state (rest ! k)) = Inr v1 \<and>
          iterE r_cal_n (accum_step P (ws ! k)) (v1, ts ! k, 0)
            = Inr (exit_state (rest ! k), ts ! Suc k, sync_measure (rest ! k))"
    using Cons.IH [OF v2(2)] by blast
  let ?p = "\<lparr>entry_state = v, exit_state = v2, sync_measure = S\<rparr>"
  have run: "rossler_sweep P v t (w # ws) = Inr (?p # rest)"
    using v1(1) v2(1) rest(1) by simp
  have loops: "\<exists>u.
      iterE 10000 (coupled_step P ((w # ws) ! k) ((t # ts) ! k)) (entry_state ((?p # rest) ! k))
        = Inr u \<and>
      iterE r_cal_n (accum_step P ((w # ws) ! k)) (u, (t # ts) ! k, 0)
        = Inr (exit_state ((?p # rest) ! k), (t # ts) ! Suc k, sync_measure ((?p # rest) ! k))"
    if k: "k < length (w # ws)" for k
  proof (cases k)
    case 0
    then show ?thesis using v1(1) v2(1) rest(4) by simp
  next
    case (Suc k')
    then have "k' < length ws" using k by simp
    then show ?thesis using rest(6) Suc by simp
  qed
  show ?case
    apply (rule exI [of _ "?p # rest"])
    apply (rule exI [of _ "t # ts"])
    using run rest(2,3,5) loops apply simp
    done
qed

lemma shape3_init: "shape3 N (rossler_init N)"
  by (simp add: shape3_def rossler_init_def)

lemma net_trace_run:
  assumes "0 < N" and "square_adj N A"
  shows "\<exists>v0 tr ts.
           iterE 10000 (warmup_step (rossler_setup N A) 0) (rossler_init N) = Inr v0 \<and>
           shape3 N v0 \<and>
           net_trace N A ws = Inr tr \<and> length tr = length ws \<and>
           length ts = Suc (length ws) \<and> ts ! 0 = 0 \<and> linked v0 tr \<and>
           (\<forall>k<length ws. \<exists>v1.
              iterE 10000 (coupled_step (rossler_setup N A) (ws ! k) (ts ! k))
                  (entry_state (tr ! k)) = Inr v1 \<and>
              iterE r_cal_n (accum_step (rossler_setup N A) (ws ! k)) (v1, ts ! k, 0)
                = Inr (exit_state (tr ! k), ts ! Suc k, sync_measure (tr ! k)))"
proof -
  let ?P = "rossler_setup N A"
  have wf: "rossler_wf N ?P"
    using assms(2) by (rule rossler_setup_wf)
  obtain v0 where v0: "iterE 10000 (warmup_step ?P 0) (rossler_init N) = Inr v0" "shape3 N v0"
    using warmup_iter [OF wf shape3_init] by blast
  obtain tr ts where r: "rossler_sweep ?P v0 0 ws = Inr tr" "length tr = length ws"
      "length ts = Suc (length ws)" "ts ! 0 = 0" "linked v0 tr"
      "\<forall>k<length ws. \<exists>v1.
          iterE 10000 (coupled_step ?P (ws ! k) (ts ! k)) (entry_state (tr ! k)) = Inr v1 \<and>
          iterE r_cal_n (accum_step ?P (ws ! k)) (v1, ts ! k, 0)
            = Inr (exit_state (tr ! k), ts ! Suc k, sync_measure (tr ! k))"
    using rossler_sweep_run [OF wf assms(1) v0(2), of 0 ws] by blast
  have "net_trace N A ws = Inr tr"
    using v0(1) r(1) by (simp add: net_trace_def Let_def)
  then show ?thesis
    using v0 r(2,3,4,5,6) by blast
qed

section \<open>The steps of the adaptive Kuramoto sweep\<close>

lemma kuramoto_setup_wf:
  assumes "square_adj N A" and "length omega = N" and "\<forall>i\<in>set idx. i < N"
  shows "kuramoto_wf N (kuramoto_setup N A omega idx)"
proof -
  have "set (take n idx) \<subseteq> set idx" for n
    by (rule set_take_subset)
  then show ?thesis
    using nonzero_valid [of N A] assms
    by (auto simp: kuramoto_wf_def kuramoto_setup_def split_def row_sums_def
        square_adj_def Let_def dest: in_set_takeD)
qed

lemma bincount_len:
  fixes ws :: "'a::comm_monoid_add list"
  assumes "length ids = length ws" and "\<forall>i\<in>set ids. i < n"
  shows "\<exists>out. bincount ids ws n = Inr out \<and> length out = n"
  using bincount_ok [OF assms] by blast

lemma kuramoto_len:
  assumes "length vars = N" and "length omega = N" and "length c = N"
    and "length pre_ids = length post_ids"
    and "\<forall>i\<in>set pre_ids. i < N" and "\<forall>i\<in>set post_ids. i < N"
  shows "\<exists>k. kuramoto vars t omega c pre_ids post_ids = Inr k \<and> length k = N"
proof -
  let ?cur = "map fsin (map2 (-) (map ((!) vars) pre_ids) (map ((!) vars) post_ids))"
  have len: "length post_ids = length ?cur"
    using assms(4) by simp
  obtain I where I: "bincount post_ids ?cur N = Inr I" "length I = N"
    using bincount_len [OF len assms(6)] by blast
  show ?thesis
    using assms I by (simp add: kuramoto_def fancy_ok ew2_same)
qed

lemma local_order_parameter_len:
  assumes "length vars = N" and "length degree_lit = N"
    and "length pre_ids = length post_ids"
    and "\<forall>i\<in>set pre_ids. i < N" and "\<forall>i\<in>set post_ids. i < N"
  shows "\<exists>r. local_order_parameter vars pre_ids post_ids degree_lit = Inr r \<and> length r = N"
proof -
  let ?src = "map ((!) vars) pre_ids"
  have len: "length post_ids = length (map fcos ?src)" "length post_ids = length (map fsin ?src)"
    using assms(3) by simp_all
  obtain sr where sr: "bincount post_ids (map fcos ?src) N = Inr sr" "length sr = N"
    using bincount_len [OF len(1) assms(5)] by blast
  obtain si where si: "bincount post_ids (map fsin ?src) N = Inr si" "length si = N"
    using bincount_len [OF len(2) assms(5)] by blast
  show ?thesis
    using assms sr si by (simp add: local_order_parameter_def fancy_ok ew2_same Let_def)
qed

lemma foldl_store_length:
  "length (foldl (\<lambda>acc (i, v). acc[i := v]) xs ps) = length xs"
  by (induction ps arbitrary: xs) (simp_all add: split_def)

lemma foldl_store_nth:
  "j < length xs \<Longrightarrow>
   foldl (\<lambda>acc (i, v). acc[i := v]) xs (zip ids (map g ids)) ! j
     = (if j \<in> set ids then g j else xs ! j)"
proof (induction ids arbitrary: xs rule: rev_induct)
  case Nil
  then show ?case by simp
next
  case (snoc i ids)
  have "zip (ids @ [i]) (map g (ids @ [i])) = zip ids (map g ids) @ [(i, g i)]"
    by simp
  then show ?case
    using snoc by (cases "i = j") (simp_all add: foldl_store_length)
qed

lemma setitem_gather:
  assumes "\<forall>i\<in>set ids. i < length xs" and "\<forall>i\<in>set ids. i < length r"
  shows "\<exists>out. setitem xs ids (map g (map ((!) r) ids)) = Inr out \<and> length out = length xs \<and>
           (\<forall>j<length xs. out ! j = (if j \<in> set ids then g (r ! j) else xs ! j))"
proof -
  have "map g (map ((!) r) ids) = map (\<lambda>i. g (r ! i)) ids"
    by simp
  then show ?thesis
    using assms foldl_store_nth [of _ xs ids "\<lambda>i. g (r ! i)"]
    by (simp add: setitem_def setrow_same list_all_iff foldl_store_length comp_def)
qed

lemma Heun_vec:
  fixes g :: "fl list \<Rightarrow> real \<Rightarrow> error + fl list"
  assumes g: "\<And>v s. length v = length y \<Longrightarrow> \<exists>k. g v s = Inr k \<and> length k = length y"
  shows "\<exists>k1 k2 y1 y'.
      g y t = Inr k1 \<and> g y1 (t + dt) = Inr k2 \<and>
      Heun g y t dt = Inr (y', [(y, t), (y1, t + dt)]) \<and>
      length y1 = length y \<and> length y' = length y \<and>
      (\<forall>j<length y.
         y1 ! j = y ! j + Fin dt * k1 ! j \<and>
         y' ! j = y ! j + Fin (0.5 * dt) * (k1 ! j + k2 ! j))"
proof -
  obtain k1 where k1: "g y t = Inr k1" "length k1 = length y"
    using g [of y t] by auto
  define y1 where "y1 = map2 (+) y (vsmul dt k1)"
  have y1: "length y1 = length y"
    unfolding y1_def using k1(2) by simp
  obtain k2 where k2: "g y1 (t + dt) = Inr k2" "length k2 = length y"
    using g [OF y1] by auto
  define s where "s = map2 (+) k1 k2"
  have s: "length s = length y"
    unfolding s_def using k1(2) k2(2) by simp
  define y' where "y' = map2 (+) y (vsmul (dt / 2) s)"
  have y': "length y' = length y"
    unfolding y'_def using s by simp
  have run: "Heun g y t dt = Inr (y', [(y, t), (y1, t + dt)])"
    unfolding Heun_def Heun_scheme_def call_def
    using k1 k2 s
    by (simp add: vadd_ok viadd_ok y1_def [symmetric] s_def [symmetric] y'_def [symmetric])
  have vals: "y1 ! j = y ! j + Fin dt * k1 ! j \<and>
         y' ! j = y ! j + Fin (0.5 * dt) * (k1 ! j + k2 ! j)"
    if j: "j < length y" for j
    unfolding y1_def y'_def s_def
    using j k1(2) k2(2) by (simp add: nth_vsmul)
  show ?thesis
    using k1(1) k2(1) run y1 y' vals by blast
qed

lemma kuramoto_val:
  assumes "length vars = N" and "length omega = N" and "length c = N"
    and "length pre_ids = length post_ids"
    and "\<forall>i\<in>set pre_ids. i < N" and "\<forall>i\<in>set post_ids. i < N"
  shows "\<exists>k I. kuramoto vars t omega c pre_ids post_ids = Inr k \<and> length k = N \<and>
           length I = N \<and>
           (\<forall>j<N. k ! j = omega ! j + c ! j * I ! j \<and>
              I ! j = (\<Sum>e | e < length post_ids \<and> post_ids ! e = j.
                        fsin (vars ! (pre_ids ! e) - vars ! (post_ids ! e))))"
proof -
  let ?cur = "map fsin (map2 (-) (map ((!) vars) pre_ids) (map ((!) vars) post_ids))"
  have len: "length post_ids = length ?cur"
    using assms(4) by simp
  obtain I where I: "bincount post_ids ?cur N = Inr I" "length I = N"
      "\<forall>j<N. I ! j = (\<Sum>e | e < length post_ids \<and> post_ids ! e = j. ?cur ! e)"
    using bincount_ok [OF len assms(6)] by blast
  have I': "I ! j = (\<Sum>e | e < length post_ids \<and> post_ids ! e = j.
                        fsin (vars ! (pre_ids ! e) - vars ! (post_ids ! e)))"
    if "j < N" for j
  proof -
    have "I ! j = (\<Sum>e | e < length post_ids \<and> post_ids ! e = j. ?cur ! e)"
      using I(3) that by blast
    also have "\<dots> = (\<Sum>e | e < length post_ids \<and> post_ids ! e = j.
                        fsin (vars ! (pre_ids ! e) - vars ! (post_ids ! e)))"
      using assms(4) by (intro sum.cong) simp_all
    finally show ?thesis .
  qed
  have "kuramoto vars t omega c pre_ids post_ids = Inr (map2 (+) omega (map2 (*) c I))"
    using assms I(1,2) by (simp add: kuramoto_def fancy_ok ew2_same)
  moreover have "\<forall>j<N. map2 (+) omega (map2 (*) c I) ! j = omega ! j + c ! j * I ! j"
    using assms(2,3) I(2) by simp
  ultimately show ?thesis
    using assms(2,3) I(2) I'
    by (intro exI [of _ "map2 (+) omega (map2 (*) c I)"] exI [of _ I]) simp
qed

lemma local_order_parameter_val:
  assumes "length vars = N" and "length degree_lit = N"
    and "length pre_ids = length post_ids"
    and "\<forall>i\<in>set pre_ids. i < N" and "\<forall>i\<in>set post_ids. i < N"
  shows "\<exists>r sum_real sum_imag.
      local_order_parameter vars pre_ids post_ids degree_lit = Inr r \<and> length r = N \<and>
      (\<forall>j<N. sum_real ! j = (\<Sum>k | k < length post_ids \<and> post_ids ! k = j.
                                fcos (vars ! (pre_ids ! k))) \<and>
              sum_imag ! j = (\<Sum>k | k < length post_ids \<and> post_ids ! k = j.
                                fsin (vars ! (pre_ids ! k))) \<and>
              r ! j = fdiv (fsqrt (sum_real ! j * sum_real ! j + sum_imag ! j * sum_imag ! j))
                        (degree_lit ! j))"
proof -
  let ?src = "map ((!) vars) pre_ids"
  have len: "length post_ids = length (map fcos ?src)" "length post_ids = length (map fsin ?src)"
    using assms(3) by simp_all
  obtain sr where sr: "bincount post_ids (map fcos ?src) N = Inr sr" "length sr = N"
      "\<forall>j<N. sr ! j = (\<Sum>k | k < length post_ids \<and> post_ids ! k = j. map fcos ?src ! k)"
    using bincount_ok [OF len(1) assms(5)] by blast
  obtain si where si: "bincount post_ids (map fsin ?src) N = Inr si" "length si = N"
      "\<forall>j<N. si ! j = (\<Sum>k | k < length post_ids \<and> post_ids ! k = j. map fsin ?src ! k)"
    using bincount_ok [OF len(2) assms(5)] by blast
  let ?r = "map2 fdiv (map fsqrt (map2 (+) (map (\<lambda>a. a * a) sr) (map (\<lambda>a. a * a) si))) degree_lit"
  have run: "local_order_parameter vars pre_ids post_ids degree_lit = Inr ?r"
    using assms sr(1,2) si(1,2)
    by (simp add: local_order_parameter_def fancy_ok ew2_same Let_def)
  have sr': "sr ! j = (\<Sum>k | k < length post_ids \<and> post_ids ! k = j. fcos (vars ! (pre_ids ! k)))"
    if "j < N" for j
  proof -
    have "sr ! j = (\<Sum>k | k < length post_ids \<and> post_ids ! k = j. map fcos ?src ! k)"
      using sr(3) that by blast
    also have "\<dots> = (\<Sum>k | k < length post_ids \<and> post_ids ! k = j. fcos (vars ! (pre_ids ! k)))"
      using assms(3) by (intro sum.cong) simp_all
    finally show ?thesis .
  qed
  have si': "si ! j = (\<Sum>k | k < length post_ids \<and> post_ids ! k = j. fsin (vars ! (pre_ids ! k)))"
    if "j < N" for j
  proof -
    have "si ! j = (\<Sum>k | k < length post_ids \<and> post_ids ! k = j. map fsin ?src ! k)"
      using si(3) that by blast
    also have "\<dots> = (\<Sum>k | k < length post_ids \<and> post_ids ! k = j. fsin (vars ! (pre_ids ! k)))"
      using assms(3) by (intro sum.cong) simp_all
    finally show ?thesis .
  qed
  have r: "?r ! j = fdiv (fsqrt (sr ! j * sr ! j + si ! j * si ! j)) (degree_lit ! j)"
    if "j < N" for j
    using that sr(2) si(2) assms(2) by simp
  have "length ?r = N"
    using sr(2) si(2) assms(2) by simp
  then show ?thesis
    using run sr' si' r by blast
qed

lemma fdiv_zero [simp]: "fdiv a 0 = NonFinite"
  by (cases a) simp_all

lemma NonFinite_plus [simp]: "NonFinite + a = NonFinite" "a + NonFinite = NonFinite"
  by (cases a; simp)+

lemma NonFinite_times [simp]: "NonFinite * a = NonFinite" "a * NonFinite = NonFinite"
  by (cases a; simp)+

lemma adaptive_step_ok:
  assumes "kuramoto_wf N P" and "length vars = N" and "length weights = N"
  shows "\<exists>r_local weights' vars' y1 k1 k2.
      local_order_parameter vars (k_pre_ids P) (k_post_ids P) (k_degrees P) = Inr r_local \<and>
      length r_local = N \<and>
      adaptive_step P w t (vars, weights) = Inr (vars', weights') \<and>
      length vars' = N \<and> length weights' = N \<and> length y1 = N \<and>
      (\<forall>j<N. weights' ! j
                = (if j \<in> set (k_Nodes_adaptive P) then Fin w * r_local ! j else weights ! j)) \<and>
      Heun (\<lambda>v s. kuramoto v s (k_omega P) weights' (k_pre_ids P) (k_post_ids P)) vars t k_dt
        = Inr (vars', [(vars, t), (y1, t + k_dt)]) \<and>
      kuramoto vars t (k_omega P) weights' (k_pre_ids P) (k_post_ids P) = Inr k1 \<and>
      kuramoto y1 (t + k_dt) (k_omega P) weights' (k_pre_ids P) (k_post_ids P) = Inr k2 \<and>
      (\<forall>j<N. y1 ! j = vars ! j + Fin k_dt * k1 ! j \<and>
              vars' ! j = vars ! j + Fin (0.5 * k_dt) * (k1 ! j + k2 ! j))"
proof -
  have wf: "length (k_omega P) = N" "length (k_degrees P) = N"
      "length (k_pre_ids P) = length (k_post_ids P)"
      "\<forall>i\<in>set (k_pre_ids P). i < N" "\<forall>i\<in>set (k_post_ids P). i < N"
      "\<forall>i\<in>set (k_Nodes_adaptive P). i < N"
    using assms(1) by (simp_all add: kuramoto_wf_def)
  obtain r_local where r: "local_order_parameter vars (k_pre_ids P) (k_post_ids P) (k_degrees P)
        = Inr r_local" "length r_local = N"
    using local_order_parameter_len [OF assms(2) wf(2,3,4,5)] by blast
  have gather: "fancy r_local (k_Nodes_adaptive P) = Inr (map ((!) r_local) (k_Nodes_adaptive P))"
    using wf(6) r(2) by (simp add: fancy_ok)
  obtain weights' where ws: "setitem weights (k_Nodes_adaptive P)
        (map ((*) (Fin w)) (map ((!) r_local) (k_Nodes_adaptive P))) = Inr weights'"
      "length weights' = length weights"
      "\<forall>j<length weights. weights' ! j
         = (if j \<in> set (k_Nodes_adaptive P) then Fin w * r_local ! j else weights ! j)"
    using setitem_gather [of "k_Nodes_adaptive P" weights r_local "(*) (Fin w)"] wf(6) r(2) assms(3)
    by auto
  let ?g = "\<lambda>v s. kuramoto v s (k_omega P) weights' (k_pre_ids P) (k_post_ids P)"
  have lw: "length weights' = N" using ws(2) assms(3) by simp
  have g: "\<exists>k. ?g v s = Inr k \<and> length k = length vars" if "length v = length vars" for v s
    using kuramoto_len [of v N "k_omega P" weights' "k_pre_ids P" "k_post_ids P" s]
      that assms(2) wf lw by simp
  obtain k1 k2 y1 vars' where h: "?g vars t = Inr k1" "?g y1 (t + k_dt) = Inr k2"
      "Heun ?g vars t k_dt = Inr (vars', [(vars, t), (y1, t + k_dt)])"
      "length y1 = length vars" "length vars' = length vars"
      "\<forall>j<length vars. y1 ! j = vars ! j + Fin k_dt * k1 ! j \<and>
         vars' ! j = vars ! j + Fin (0.5 * k_dt) * (k1 ! j + k2 ! j)"
    using Heun_vec [of vars ?g t k_dt, OF g] by blast
  have run: "adaptive_step P w t (vars, weights) = Inr (vars', weights')"
    using r(1) gather ws(1) h(3) by (simp add: adaptive_step_def kuramoto_field_def)
  have A: "\<forall>j<N. weights' ! j
      = (if j \<in> set (k_Nodes_adaptive P) then Fin w * r_local ! j else weights ! j)"
    using ws(3) assms(3) by simp
  have B: "\<forall>j<N. y1 ! j = vars ! j + Fin k_dt * k1 ! j \<and>
              vars' ! j = vars ! j + Fin (0.5 * k_dt) * (k1 ! j + k2 ! j)"
    using h(6) assms(2) by simp
  have C: "length vars' = N" "length y1 = N"
    using h(4,5) assms(2) by simp_all
  show ?thesis
    apply (rule exI [of _ r_local])
    apply (rule exI [of _ weights'])
    apply (rule exI [of _ vars'])
    apply (rule exI [of _ y1])
    apply (rule exI [of _ k1])
    apply (rule exI [of _ k2])
    using r run C lw A h(1,2,3) B apply simp
    done
qed

lemma finite_values_map_Fin [simp]: "finite_values (map Fin phi) = Some phi"
  by (induction phi) simp_all

lemma finite_values_None: "NonFinite \<in> set xs \<Longrightarrow> finite_values xs = None"
proof (induction xs)
  case Nil
  then show ?case by simp
next
  case (Cons a xs)
  then show ?case by (cases a) auto
qed

lemma all_finite_map_Fin: "NonFinite \<notin> set xs \<Longrightarrow> \<exists>phi. xs = map Fin phi"
proof (induction xs)
  case Nil
  then show ?case by simp
next
  case (Cons a xs)
  then obtain phi where "xs = map Fin phi" by auto
  moreover obtain b where "a = Fin b" using Cons.prems by (cases a) auto
  ultimately have "a # xs = map Fin (b # phi)" by simp
  then show ?case by (rule exI)
qed

lemma order_parameter_finite:
  assumes "phi \<noteq> []"
  shows "order_parameter (map Fin phi)
    = Inr (Fin (cmod ((\<Sum>p\<leftarrow>phi. exp (\<i> * complex_of_real p)) / of_nat (length phi))))"
  using assms by (simp add: order_parameter_def mean_field_value)

lemma order_parameter_poisoned:
  "NonFinite \<in> set vars \<Longrightarrow> order_parameter vars = Inr NonFinite"
  by (simp add: order_parameter_def finite_values_None)

lemma order_parameter_total:
  assumes "vars \<noteq> []"
  shows "\<exists>r. order_parameter vars = Inr r"
proof (cases "NonFinite \<in> set vars")
  case True
  then show ?thesis by (simp add: order_parameter_poisoned)
next
  case False
  then obtain phi where "vars = map Fin phi" using all_finite_map_Fin by blast
  then show ?thesis using order_parameter_finite [of phi] assms by auto
qed

section \<open>The adaptive Kuramoto sweep never raises on a well-formed network\<close>

lemma iterE_pos: "0 < n \<Longrightarrow> iterE n body s = bindE (body s) (iterE (n - 1) body)"
  by (cases n) simp_all

lemma adaptive_step_shape:
  assumes "kuramoto_wf N P" and "k_shape N s"
  shows "\<exists>s'. adaptive_step P w t s = Inr s' \<and> k_shape N s'"
proof -
  obtain vars weights where s: "s = (vars, weights)" by (cases s)
  then have "length vars = N" "length weights = N"
    using assms(2) by (simp_all add: k_shape_def)
  from adaptive_step_ok [OF assms(1) this, of w t] show ?thesis
    unfolding s by (auto simp: k_shape_def)
qed

lemma k_accum_step_shape:
  assumes "kuramoto_wf N P" and "0 < N" and "k_shape N (vars, weights)"
  shows "\<exists>vars' weights' r1. k_accum_step P w (vars, weights, t, r)
             = Inr (vars', weights', t + k_dt, r + fdiv r1 (real k_cal_n)) \<and>
           adaptive_step P w t (vars, weights) = Inr (vars', weights') \<and>
           order_parameter vars' = Inr r1 \<and> k_shape N (vars', weights')"
proof -
  obtain s' where s': "adaptive_step P w t (vars, weights) = Inr s'" "k_shape N s'"
    using adaptive_step_shape [OF assms(1,3)] by blast
  obtain vars' weights' where p: "s' = (vars', weights')" by (cases s')
  have "vars' \<noteq> []" using s'(2) assms(2) by (auto simp: p k_shape_def)
  then obtain r1 where r1: "order_parameter vars' = Inr r1"
    using order_parameter_total by blast
  have "k_accum_step P w (vars, weights, t, r)
      = Inr (vars', weights', t + k_dt, r + fdiv r1 (real k_cal_n))"
    using s'(1) r1 by (simp add: k_accum_step_def p)
  then show ?thesis using s' r1 unfolding p by blast
qed

lemma k_accum_iter_shape:
  assumes "kuramoto_wf N P" and "0 < N" and "k_shape N (vars, weights)"
  shows "\<exists>vars' weights' t' r'. iterE n (k_accum_step P w) (vars, weights, t, r)
             = Inr (vars', weights', t', r') \<and> k_shape N (vars', weights')"
proof -
  let ?Inv = "\<lambda>(v, c, t, r). k_shape N (v, c)"
  have step: "\<exists>s'. k_accum_step P w s = Inr s' \<and> ?Inv s'" if "?Inv s"
    for s :: "fl list \<times> fl list \<times> real \<times> fl"
  proof -
    obtain v c t0 r0 where s: "s = (v, c, t0, r0)" by (cases s)
    then have "k_shape N (v, c)" using that by simp
    from k_accum_step_shape [OF assms(1,2) this, of w t0 r0] show ?thesis
      unfolding s by auto
  qed
  have "?Inv (vars, weights, t, r)" using assms(3) by simp
  from iterE_invariant [of ?Inv "k_accum_step P w", OF step this, of n]
  show ?thesis by auto
qed

lemma kuramoto_sweep_run:
  assumes "kuramoto_wf N P" and "0 < N" and "length vars = N"
  shows "\<exists>tr. kuramoto_sweep P N vars ws = Inr tr \<and> length tr = length ws \<and> linked vars tr \<and>
           (\<forall>k<length ws. \<exists>v1 c1 c2 t2.
              iterE 20000 (adaptive_step P (ws ! k) 0)
                  (entry_state (tr ! k), replicate N (Fin (ws ! k))) = Inr (v1, c1) \<and>
              iterE k_cal_n (k_accum_step P (ws ! k)) (v1, c1, 0, Fin 0)
                = Inr (exit_state (tr ! k), c2, t2, sync_measure (tr ! k)))"
  using assms(3)
proof (induction ws arbitrary: vars)
  case Nil
  then show ?case by simp
next
  case (Cons w ws)
  let ?w0 = "replicate N (Fin w)"
  have "k_shape N (vars, ?w0)"
    using Cons.prems by (simp add: k_shape_def)
  then obtain s1 where s1: "iterE 20000 (adaptive_step P w 0) (vars, ?w0) = Inr s1" "k_shape N s1"
    using iterE_invariant [of "k_shape N" "adaptive_step P w 0" "(vars, ?w0)" 20000]
      adaptive_step_shape [OF assms(1)] by blast
  obtain v1 c1 where p1: "s1 = (v1, c1)" by (cases s1)
  obtain v2 c2 t2 r where s2: "iterE k_cal_n (k_accum_step P w) (v1, c1, 0, Fin 0)
      = Inr (v2, c2, t2, r)" "k_shape N (v2, c2)"
    using k_accum_iter_shape [OF assms(1,2), of v1 c1 k_cal_n w 0 "Fin 0"] s1(2)
    unfolding p1 by blast
  have "length v2 = N" using s2(2) by (simp add: k_shape_def)
  then obtain rest where rest: "kuramoto_sweep P N v2 ws = Inr rest" "length rest = length ws"
      "linked v2 rest"
      "\<forall>k<length ws. \<exists>v1 c1 c2 t2.
          iterE 20000 (adaptive_step P (ws ! k) 0)
              (entry_state (rest ! k), replicate N (Fin (ws ! k))) = Inr (v1, c1) \<and>
          iterE k_cal_n (k_accum_step P (ws ! k)) (v1, c1, 0, Fin 0)
            = Inr (exit_state (rest ! k), c2, t2, sync_measure (rest ! k))"
    using Cons.IH by blast
  let ?p = "\<lparr>entry_state = vars, exit_state = v2, sync_measure = r\<rparr>"
  have run: "kuramoto_sweep P N vars (w # ws) = Inr (?p # rest)"
    using s1(1) s2(1) rest(1) by (simp add: p1 Let_def)
  have loops: "\<exists>u1 d1 d2 u2.
      iterE 20000 (adaptive_step P ((w # ws) ! k) 0)
          (entry_state ((?p # rest) ! k), replicate N (Fin ((w # ws) ! k))) = Inr (u1, d1) \<and>
      iterE k_cal_n (k_accum_step P ((w # ws) ! k)) (u1, d1, 0, Fin 0)
        = Inr (exit_state ((?p # rest) ! k), d2, u2, sync_measure ((?p # rest) ! k))"
    if k: "k < length (w # ws)" for k
  proof (cases k)
    case 0
    then show ?thesis using s1(1) s2(1) by (simp add: p1)
  next
    case (Suc k')
    then have "k' < length ws" using k by simp
    then show ?thesis using rest(4) Suc by simp
  qed
  show ?case
    apply (rule exI [of _ "?p # rest"])
    using run rest(2,3) loops apply simp
    done
qed

section \<open>Non-finite phases stay\<close>

lemma adaptive_step_poisoned:
  assumes "kuramoto_wf N P" and "k_poisoned N j s"
  shows "\<exists>s'. adaptive_step P w t s = Inr s' \<and> k_poisoned N j s'"
proof -
  obtain vars weights where s: "s = (vars, weights)" by (cases s)
  then have h: "length vars = N" "length weights = N" "j < N" "vars ! j = NonFinite"
    using assms(2) by (simp_all add: k_poisoned_def k_shape_def)
  from adaptive_step_ok [OF assms(1) h(1,2), of w t]
  obtain vars' weights' k1 k2 where
    "adaptive_step P w t (vars, weights) = Inr (vars', weights')"
    "length vars' = N" "length weights' = N"
    "\<forall>j<N. vars' ! j = vars ! j + Fin (0.5 * k_dt) * (k1 ! j + k2 ! j)"
    by blast
  then show ?thesis
    unfolding s using h(3,4) by (simp add: k_poisoned_def k_shape_def)
qed

lemma adaptive_step_isolated:
  assumes "kuramoto_wf N P" and "k_shape N s" and "j < N"
    and "k_degrees P ! j = 0" and "j \<in> set (k_Nodes_adaptive P)"
  shows "\<exists>s'. adaptive_step P w t s = Inr s' \<and> k_poisoned N j s'"
proof -
  obtain vars weights where s: "s = (vars, weights)" by (cases s)
  then have h: "length vars = N" "length weights = N"
    using assms(2) by (simp_all add: k_shape_def)
  have wf: "length (k_omega P) = N" "length (k_degrees P) = N"
      "length (k_pre_ids P) = length (k_post_ids P)"
      "\<forall>i\<in>set (k_pre_ids P). i < N" "\<forall>i\<in>set (k_post_ids P). i < N"
    using assms(1) by (simp_all add: kuramoto_wf_def)
  from adaptive_step_ok [OF assms(1) h, of w t]
  obtain r_local vars' weights' k1 k2 where a:
    "local_order_parameter vars (k_pre_ids P) (k_post_ids P) (k_degrees P) = Inr r_local"
    "adaptive_step P w t (vars, weights) = Inr (vars', weights')"
    "length vars' = N" "length weights' = N"
    "\<forall>j<N. weights' ! j
       = (if j \<in> set (k_Nodes_adaptive P) then Fin w * r_local ! j else weights ! j)"
    "kuramoto vars t (k_omega P) weights' (k_pre_ids P) (k_post_ids P) = Inr k1"
    "\<forall>j<N. vars' ! j = vars ! j + Fin (0.5 * k_dt) * (k1 ! j + k2 ! j)"
    by blast
  from local_order_parameter_val [OF h(1) wf(2,3,4,5)] a(1) assms(3,4)
  have "r_local ! j = NonFinite" by auto
  then have "weights' ! j = NonFinite"
    using a(5) assms(3,5) by simp
  moreover from kuramoto_val [OF h(1) wf(1) a(4) wf(3,4,5), of t] a(6) assms(3)
  obtain I where "k1 ! j = k_omega P ! j + weights' ! j * I ! j" by auto
  ultimately have "k1 ! j = NonFinite" by simp
  then have "vars' ! j = NonFinite"
    using a(7) assms(3) by simp
  then show ?thesis
    unfolding s using a(2,3,4) assms(3) by (simp add: k_poisoned_def k_shape_def)
qed

lemma k_accum_step_poisoned:
  assumes "kuramoto_wf N P" and "k_poisoned N j (vars, weights)"
  shows "\<exists>vars' weights' t'. k_accum_step P w (vars, weights, t, r)
             = Inr (vars', weights', t', NonFinite) \<and> k_poisoned N j (vars', weights')"
proof -
  obtain s' where s': "adaptive_step P w t (vars, weights) = Inr s'" "k_poisoned N j s'"
    using adaptive_step_poisoned [OF assms] by blast
  obtain vars' weights' where p: "s' = (vars', weights')" by (cases s')
  have "j < length vars'" "vars' ! j = NonFinite"
    using s'(2) by (simp_all add: p k_poisoned_def k_shape_def)
  then have "NonFinite \<in> set vars'"
    by (metis nth_mem)
  then have "order_parameter vars' = Inr NonFinite"
    by (rule order_parameter_poisoned)
  then have "k_accum_step P w (vars, weights, t, r) = Inr (vars', weights', t + k_dt, NonFinite)"
    using s'(1) by (simp add: k_accum_step_def p)
  then show ?thesis using s'(2) unfolding p by blast
qed

lemma k_accum_iter_poisoned:
  assumes "kuramoto_wf N P" and "k_poisoned N j (vars, weights)" and "0 < n"
  shows "\<exists>vars' weights' t'. iterE n (k_accum_step P w) (vars, weights, t, r)
             = Inr (vars', weights', t', NonFinite) \<and> k_poisoned N j (vars', weights')"
proof -
  let ?Inv = "\<lambda>(v, c, t, r). k_poisoned N j (v, c) \<and> r = NonFinite"
  have step: "\<exists>s'. k_accum_step P w s = Inr s' \<and> ?Inv s'" if "?Inv s"
    for s :: "fl list \<times> fl list \<times> real \<times> fl"
  proof -
    obtain v c t0 r0 where s: "s = (v, c, t0, r0)" by (cases s)
    then have "k_poisoned N j (v, c)" using that by simp
    from k_accum_step_poisoned [OF assms(1) this, of w t0 r0] show ?thesis
      unfolding s by auto
  qed
  obtain v1 c1 t1 where first: "k_accum_step P w (vars, weights, t, r)
      = Inr (v1, c1, t1, NonFinite)" "k_poisoned N j (v1, c1)"
    using k_accum_step_poisoned [OF assms(1,2)] by blast
  then have "?Inv (v1, c1, t1, NonFinite)" by simp
  from iterE_invariant [of ?Inv "k_accum_step P w", OF step this, of "n - 1"]
  show ?thesis
    using first(1) assms(3) by (auto simp: iterE_pos)
qed

lemma kuramoto_sweep_poisoned:
  assumes "kuramoto_wf N P" and "length vars = N" and "j < N" and "vars ! j = NonFinite"
  shows "\<exists>tr. kuramoto_sweep P N vars ws = Inr tr \<and> length tr = length ws \<and>
           (\<forall>p\<in>set tr. sync_measure p = NonFinite)"
  using assms(2,4)
proof (induction ws arbitrary: vars)
  case Nil
  then show ?case by simp
next
  case (Cons w ws)
  let ?w0 = "map ((*) (Fin w)) (replicate N (Fin 1))"
  have "k_poisoned N j (vars, ?w0)"
    using Cons.prems assms(3) by (simp add: k_poisoned_def k_shape_def)
  then obtain s1 where s1: "iterE 20000 (adaptive_step P w 0) (vars, ?w0) = Inr s1"
      "k_poisoned N j s1"
    using iterE_invariant [of "k_poisoned N j" "adaptive_step P w 0" "(vars, ?w0)" 20000]
      adaptive_step_poisoned [OF assms(1)] by blast
  obtain v1 c1 where p1: "s1 = (v1, c1)" by (cases s1)
  obtain v2 c2 t2 where s2: "iterE k_cal_n (k_accum_step P w) (v1, c1, 0, Fin 0)
      = Inr (v2, c2, t2, NonFinite)" "k_poisoned N j (v2, c2)"
    using k_accum_iter_poisoned [OF assms(1), of j v1 c1 k_cal_n w 0 "Fin 0"] s1(2)
    unfolding p1 by (auto simp: k_cal_n_def)
  have "length v2 = N" "v2 ! j = NonFinite"
    using s2(2) by (simp_all add: k_poisoned_def k_shape_def)
  then obtain rest where rest: "kuramoto_sweep P N v2 ws = Inr rest" "length rest = length ws"
      "\<forall>p\<in>set rest. sync_measure p = NonFinite"
    using Cons.IH by blast
  show ?case
    using s1(1) s2(1) rest by (simp add: p1 Let_def)
qed

lemma kuramoto_sweep_isolated:
  assumes "kuramoto_wf N P" and "length vars = N" and "j < N"
    and "k_degrees P ! j = 0" and "j \<in> set (k_Nodes_adaptive P)"
  shows "\<exists>tr. kuramoto_sweep P N vars ws = Inr tr \<and> length tr = length ws \<and>
           (\<forall>p\<in>set tr. sync_measure p = NonFinite)"
proof (cases ws)
  case Nil
  then show ?thesis by simp
next
  case (Cons w ws')
  let ?w0 = "map ((*) (Fin w)) (replicate N (Fin 1))"
  have "k_shape N (vars, ?w0)"
    using assms(2) by (simp add: k_shape_def)
  then obtain s0 where s0: "adaptive_step P w 0 (vars, ?w0) = Inr s0" "k_poisoned N j s0"
    using adaptive_step_isolated [OF assms(1) _ assms(3,4,5)] by blast
  obtain s1 where s1: "iterE 19999 (adaptive_step P w 0) s0 = Inr s1" "k_poisoned N j s1"
    using iterE_invariant [of "k_poisoned N j" "adaptive_step P w 0" s0 19999]
      adaptive_step_poisoned [OF assms(1)] s0(2) by blast
  have relax: "iterE 20000 (adaptive_step P w 0) (vars, ?w0) = Inr s1"
    using s0(1) s1(1) by (simp add: iterE_pos)
  obtain v1 c1 where p1: "s1 = (v1, c1)" by (cases s1)
  obtain v2 c2 t2 where s2: "iterE k_cal_n (k_accum_step P w) (v1, c1, 0, Fin 0)
      = Inr (v2, c2, t2, NonFinite)" "k_poisoned N j (v2, c2)"
    using k_accum_iter_poisoned [OF assms(1), of j v1 c1 k_cal_n w 0 "Fin 0"] s1(2)
    unfolding p1 by (auto simp: k_cal_n_def)
  have "length v2 = N" "v2 ! j = NonFinite"
    using s2(2) by (simp_all add: k_poisoned_def k_shape_def)
  then obtain rest where rest: "kuramoto_sweep P N v2 ws' = Inr rest" "length rest = length ws'"
      "\<forall>p\<in>set rest. sync_measure p = NonFinite"
    using kuramoto_sweep_poisoned [OF assms(1) _ assms(3)] by blast
  show ?thesis
    unfolding Cons using relax s2(1) rest by (simp add: p1 Let_def)
qed

section \<open>The order parameter and the reported measures\<close>

lemma map_const_replicate: "\<forall>x\<in>set xs. f x = c \<Longrightarrow> map f xs = replicate (length xs) c"
  by (induction xs) simp_all

lemma net_K_degree_zero:
  assumes "0 < N" and "square_adj N A" and "length omega = N" and "length vars0 = N"
    and "\<forall>i\<in>set idx. i < N" and "j < N" and "row_sums A ! j = 0" and "j \<in> set (take N idx)"
  shows "net_K N A ws omega vars0 idx = Inr (replicate (length ws) NonFinite)"
proof -
  let ?P = "kuramoto_setup N A omega idx"
  have wf: "kuramoto_wf N ?P"
    using kuramoto_setup_wf [OF assms(2,3,5)] .
  have deg: "k_degrees ?P ! j = 0"
    using assms(7) by (simp add: kuramoto_setup_def split_def Let_def)
  have ad: "j \<in> set (k_Nodes_adaptive ?P)"
    using assms(8) by (simp add: kuramoto_setup_def split_def Let_def f_adaptive_def)
  obtain tr where tr: "kuramoto_sweep ?P N (map Fin vars0) ws = Inr tr" "length tr = length ws"
      "\<forall>p\<in>set tr. sync_measure p = NonFinite"
    using kuramoto_sweep_isolated [OF wf _ assms(6) deg ad, of "map Fin vars0" ws] assms(4)
    by auto
  have "map sync_measure tr = replicate (length ws) NonFinite"
    using map_const_replicate [OF tr(3)] tr(2) by simp
  then show ?thesis
    using tr(1) by (simp add: net_K_def net_K_trace_def)
qed

text \<open>
  Against claim C4: a single node without neighbours has degree zero; its phase is not
  finite after the first step, and the measure that the adaptive Kuramoto driver
  reports is NaN, which is not a number of \<open>[0, 1]\<close>.
\<close>

theorem net_K_reports_NaN:
  "net_K 1 [[0]] [1 / 2] [1 / 4] [1] [0] = Inr [NonFinite]"
proof -
  have "net_K 1 [[0]] [1 / 2] [1 / 4] [1] [0] = Inr (replicate (length [1 / 2 :: real]) NonFinite)"
    by (rule net_K_degree_zero [where j = 0]) (simp_all add: square_adj_def row_sums_def)
  then show ?thesis by simp
qed

text \<open>
  Claim C4, amended. For \<open>N \<ge> 1\<close> finite phases the global order parameter is the
  finite, non-negative number \<open>|\<Sum> exp(i \<phi>[j])| / N\<close>, and it is NaN as soon as one
  phase is not finite. Each accumulation step of the piecewise-Rossler driver adds this
  quantity, taken of the pseudo-phases \<open>arctan2(y, x)\<close> of the new state and divided by
  the number of accumulation steps, to the measure. The reported measure is not
  confined to \<open>[0, 1]\<close>: when a node of the adaptive Kuramoto driver that is flagged
  adaptive has degree zero, the measure of every coupling strength is NaN. The values
  are those of exact arithmetic; that they do not exceed \<open>1\<close> is not asserted of the
  rounded result.
\<close>

theorem order_parameter_value:
  "(phi \<noteq> [] \<longrightarrow>
      order_parameter (map Fin phi)
        = Inr (Fin (cmod ((\<Sum>p\<leftarrow>phi. exp (\<i> * complex_of_real p)) / of_nat (length phi)))) \<and>
      0 \<le> cmod ((\<Sum>p\<leftarrow>phi. exp (\<i> * complex_of_real p)) / of_nat (length phi))) \<and>
   (NonFinite \<in> set vars \<longrightarrow> order_parameter vars = Inr NonFinite) \<and>
   (0 < N \<and> square_adj N A \<and> shape3 N v \<longrightarrow>
      (\<exists>x y z. coupled_step (rossler_setup N A) w t v = Inr [x, y, z] \<and>
         accum_step (rossler_setup N A) w (v, t, S)
           = Inr ([x, y, z], t + r_dt,
               S + cmod ((\<Sum>p\<leftarrow>map2 arctan2 y x. exp (\<i> * complex_of_real p)) / of_nat N)
                     / real r_cal_n))) \<and>
   (0 < N \<and> square_adj N A \<and> length omega = N \<and> length vars0 = N \<and>
    (\<forall>i\<in>set idx. i < N) \<and> j < N \<and> row_sums A ! j = 0 \<and> j \<in> set (take N idx) \<longrightarrow>
      net_K N A ws omega vars0 idx = Inr (replicate (length ws) NonFinite))"
proof (intro conjI impI)
  assume "phi \<noteq> []"
  then show "order_parameter (map Fin phi)
        = Inr (Fin (cmod ((\<Sum>p\<leftarrow>phi. exp (\<i> * complex_of_real p)) / of_nat (length phi))))"
    by (rule order_parameter_finite)
next
  show "0 \<le> cmod ((\<Sum>p\<leftarrow>phi. exp (\<i> * complex_of_real p)) / of_nat (length phi))"
    by (rule norm_ge_zero)
next
  assume "NonFinite \<in> set vars"
  then show "order_parameter vars = Inr NonFinite"
    by (rule order_parameter_poisoned)
next
  assume h: "0 < N \<and> square_adj N A \<and> shape3 N v"
  then have "rossler_wf N (rossler_setup N A)"
    by (simp add: rossler_setup_wf)
  from accum_step_ok [OF this, of v w t S] h
  show "\<exists>x y z. coupled_step (rossler_setup N A) w t v = Inr [x, y, z] \<and>
         accum_step (rossler_setup N A) w (v, t, S)
           = Inr ([x, y, z], t + r_dt,
               S + cmod ((\<Sum>p\<leftarrow>map2 arctan2 y x. exp (\<i> * complex_of_real p)) / of_nat N)
                     / real r_cal_n)"
    by blast
next
  assume "0 < N \<and> square_adj N A \<and> length omega = N \<and> length vars0 = N \<and>
    (\<forall>i\<in>set idx. i < N) \<and> j < N \<and> row_sums A ! j = 0 \<and> j \<in> set (take N idx)"
  then show "net_K N A ws omega vars0 idx = Inr (replicate (length ws) NonFinite)"
    using net_K_degree_zero [of N A omega vars0 idx j ws] by blast
qed

theorem order_parameter_value_witness:
  "order_parameter (map Fin [0, 1])
     = Inr (Fin (cmod ((\<Sum>p\<leftarrow>[0, 1]. exp (\<i> * complex_of_real p)) / of_nat (length [0, 1 :: real])))) \<and>
   order_parameter [Fin 0, NonFinite] = Inr NonFinite \<and>
   (\<exists>x y z. coupled_step (rossler_setup 2 [[0, 1], [0, 0]]) (1 / 100) 0 (rossler_init 2)
        = Inr [x, y, z] \<and>
      accum_step (rossler_setup 2 [[0, 1], [0, 0]]) (1 / 100) (rossler_init 2, 0, 0)
        = Inr ([x, y, z], 0 + r_dt,
            0 + cmod ((\<Sum>p\<leftarrow>map2 arctan2 y x. exp (\<i> * complex_of_real p)) / of_nat 2)
                  / real r_cal_n)) \<and>
   net_K 2 [[0, 1], [0, 0]] [1 / 100, 2 / 100] [1 / 2, - 1 / 2] [0, 1] [1, 0]
     = Inr (replicate (length [1 / 100, 2 / 100 :: real]) NonFinite)"
proof -
  note inst = order_parameter_value [where phi = "[0, 1]" and vars = "[Fin 0, NonFinite]"
      and N = 2 and A = "[[0, 1], [0, 0]]" and v = "rossler_init 2" and w = "1 / 100"
      and t = 0 and S = 0 and omega = "[1 / 2, - 1 / 2]" and ?vars0.0 = "[0, 1]"
      and idx = "[1, 0]" and j = 1 and ws = "[1 / 100, 2 / 100]"]
  have a: "[0, 1 :: real] \<noteq> []" by simp
  have b: "NonFinite \<in> set [Fin 0, NonFinite]" by simp
  have c: "0 < (2 :: nat) \<and> square_adj 2 [[0, 1], [0, 0]] \<and> shape3 2 (rossler_init 2)"
    by (simp add: square_adj_def shape3_init)
  have d: "0 < (2 :: nat) \<and> square_adj 2 [[0, 1], [0, 0]] \<and> length [1 / 2, - 1 / 2 :: real] = 2 \<and>
      length [0, 1 :: real] = 2 \<and> (\<forall>i\<in>set [1, 0 :: nat]. i < 2) \<and> (1 :: nat) < 2 \<and>
      row_sums [[0, 1], [0, 0]] ! 1 = 0 \<and> (1 :: nat) \<in> set (take 2 [1, 0])"
    by (simp add: square_adj_def row_sums_def)
  show ?thesis
    using inst [THEN conjunct1, rule_format, OF a, THEN conjunct1]
      inst [THEN conjunct2, THEN conjunct1, rule_format, OF b]
      inst [THEN conjunct2, THEN conjunct2, THEN conjunct1, rule_format, OF c]
      inst [THEN conjunct2, THEN conjunct2, THEN conjunct2, rule_format, OF d]
    by (intro conjI)
qed

section \<open>The sweep drivers carry their state from value to value\<close>

lemma net_K_trace_run:
  assumes "0 < N" and "square_adj N A" and "length omega = N" and "length vars0 = N"
    and "\<forall>i\<in>set idx. i < N"
  shows "\<exists>tr. net_K_trace N A ws omega vars0 idx = Inr tr \<and> length tr = length ws \<and>
           linked (map Fin vars0) tr \<and>
           (\<forall>k<length ws. \<exists>v1 c1 c2 t2.
              iterE 20000 (adaptive_step (kuramoto_setup N A omega idx) (ws ! k) 0)
                  (entry_state (tr ! k), replicate N (Fin (ws ! k))) = Inr (v1, c1) \<and>
              iterE k_cal_n (k_accum_step (kuramoto_setup N A omega idx) (ws ! k))
                  (v1, c1, 0, Fin 0)
                = Inr (exit_state (tr ! k), c2, t2, sync_measure (tr ! k)))"
  unfolding net_K_trace_def
  using kuramoto_sweep_run [OF kuramoto_setup_wf [OF assms(2,3,5)] assms(1),
      of "map Fin vars0" ws] assms(4)
  by simp

text \<open>
  Claim C5. Both sweep drivers initialise the node state once, before the loop over the
  coupling strengths. For every value \<open>k\<close> of the sequence, the relaxation loop runs from
  the state \<open>entry_state (tr ! k)\<close> and the accumulation loop that follows it ends in
  the state \<open>exit_state (tr ! k)\<close> with the reported measure; the first of these entry
  states is the warmed-up initial state (first notebook) or the initial phases (second
  notebook), and the entry state of value \<open>k + 1\<close> is the exit state of value \<open>k\<close>.
  Nothing resets or re-initialises the state between two values.
\<close>

theorem sweep_state_carried_over:
  "(0 < N \<and> square_adj N A \<longrightarrow>
      (\<exists>v0 tr ts.
         iterE 10000 (warmup_step (rossler_setup N A) 0) (rossler_init N) = Inr v0 \<and>
         net_trace N A ws = Inr tr \<and> net N A ws = Inr (map sync_measure tr) \<and>
         length tr = length ws \<and> length ts = Suc (length ws) \<and> ts ! 0 = 0 \<and>
         (tr \<noteq> [] \<longrightarrow> entry_state (tr ! 0) = v0) \<and>
         (\<forall>k<length ws. \<exists>v1.
            iterE 10000 (coupled_step (rossler_setup N A) (ws ! k) (ts ! k))
                (entry_state (tr ! k)) = Inr v1 \<and>
            iterE r_cal_n (accum_step (rossler_setup N A) (ws ! k)) (v1, ts ! k, 0)
              = Inr (exit_state (tr ! k), ts ! Suc k, sync_measure (tr ! k))) \<and>
         (\<forall>k. Suc k < length tr \<longrightarrow> entry_state (tr ! Suc k) = exit_state (tr ! k)))) \<and>
   (0 < N \<and> square_adj N A \<and> length omega = N \<and> length vars0 = N \<and>
    (\<forall>i\<in>set idx. i < N) \<longrightarrow>
      (\<exists>tr. net_K_trace N A ws omega vars0 idx = Inr tr \<and>
         net_K N A ws omega vars0 idx = Inr (map sync_measure tr) \<and>
         length tr = length ws \<and>
         (tr \<noteq> [] \<longrightarrow> entry_state (tr ! 0) = map Fin vars0) \<and>
         (\<forall>k<length ws. \<exists>v1 c1 c2 t2.
            iterE 20000 (adaptive_step (kuramoto_setup N A omega idx) (ws ! k) 0)
                (entry_state (tr ! k), replicate N (Fin (ws ! k))) = Inr (v1, c1) \<and>
            iterE k_cal_n (k_accum_step (kuramoto_setup N A omega idx) (ws ! k))
                (v1, c1, 0, Fin 0)
              = Inr (exit_state (tr ! k), c2, t2, sync_measure (tr ! k))) \<and>
         (\<forall>k. Suc k < length tr \<longrightarrow> entry_state (tr ! Suc k) = exit_state (tr ! k))))"
proof (intro conjI impI)
  assume h: "0 < N \<and> square_adj N A"
  then obtain v0 tr ts where t:
      "iterE 10000 (warmup_step (rossler_setup N A) 0) (rossler_init N) = Inr v0"
      "net_trace N A ws = Inr tr" "length tr = length ws"
      "length ts = Suc (length ws)" "ts ! 0 = 0" "linked v0 tr"
      "\<forall>k<length ws. \<exists>v1.
          iterE 10000 (coupled_step (rossler_setup N A) (ws ! k) (ts ! k))
              (entry_state (tr ! k)) = Inr v1 \<and>
          iterE r_cal_n (accum_step (rossler_setup N A) (ws ! k)) (v1, ts ! k, 0)
            = Inr (exit_state (tr ! k), ts ! Suc k, sync_measure (tr ! k))"
    using net_trace_run [of N A ws] by blast
  have a: "net N A ws = Inr (map sync_measure tr)"
    using t(2) by (simp add: net_def)
  have b: "tr \<noteq> [] \<longrightarrow> entry_state (tr ! 0) = v0"
    using t(6) by (simp add: linked_hd)
  have c: "\<forall>k. Suc k < length tr \<longrightarrow> entry_state (tr ! Suc k) = exit_state (tr ! k)"
    using t(6) by (simp add: linked_nth)
  show "\<exists>v0 tr ts.
      iterE 10000 (warmup_step (rossler_setup N A) 0) (rossler_init N) = Inr v0 \<and>
      net_trace N A ws = Inr tr \<and> net N A ws = Inr (map sync_measure tr) \<and>
      length tr = length ws \<and> length ts = Suc (length ws) \<and> ts ! 0 = 0 \<and>
      (tr \<noteq> [] \<longrightarrow> entry_state (tr ! 0) = v0) \<and>
      (\<forall>k<length ws. \<exists>v1.
         iterE 10000 (coupled_step (rossler_setup N A) (ws ! k) (ts ! k))
             (entry_state (tr ! k)) = Inr v1 \<and>
         iterE r_cal_n (accum_step (rossler_setup N A) (ws ! k)) (v1, ts ! k, 0)
           = Inr (exit_state (tr ! k), ts ! Suc k, sync_measure (tr ! k))) \<and>
      (\<forall>k. Suc k < length tr \<longrightarrow> entry_state (tr ! Suc k) = exit_state (tr ! k))"
    apply (rule exI [of _ v0])
    apply (rule exI [of _ tr])
    apply (rule exI [of _ ts])
    using t(1,2,3,4,5,7) a b c apply simp
    done
next
  assume h: "0 < N \<and> square_adj N A \<and> length omega = N \<and> length vars0 = N \<and>
    (\<forall>i\<in>set idx. i < N)"
  then obtain tr where t: "net_K_trace N A ws omega vars0 idx = Inr tr"
      "length tr = length ws" "linked (map Fin vars0) tr"
      "\<forall>k<length ws. \<exists>v1 c1 c2 t2.
          iterE 20000 (adaptive_step (kuramoto_setup N A omega idx) (ws ! k) 0)
              (entry_state (tr ! k), replicate N (Fin (ws ! k))) = Inr (v1, c1) \<and>
          iterE k_cal_n (k_accum_step (kuramoto_setup N A omega idx) (ws ! k))
              (v1, c1, 0, Fin 0)
            = Inr (exit_state (tr ! k), c2, t2, sync_measure (tr ! k))"
    using net_K_trace_run [of N A omega vars0 idx ws] by blast
  have a: "net_K N A ws omega vars0 idx = Inr (map sync_measure tr)"
    using t(1) by (simp add: net_K_def)
  have b: "tr \<noteq> [] \<longrightarrow> entry_state (tr ! 0) = map Fin vars0"
    using t(3) by (simp add: linked_hd)
  have c: "\<forall>k. Suc k < length tr \<longrightarrow> entry_state (tr ! Suc k) = exit_state (tr ! k)"
    using t(3) by (simp add: linked_nth)
  show "\<exists>tr. net_K_trace N A ws omega vars0 idx = Inr tr \<and>
      net_K N A ws omega vars0 idx = Inr (map sync_measure tr) \<and>
      length tr = length ws \<and>
      (tr \<noteq> [] \<longrightarrow> entry_state (tr ! 0) = map Fin vars0) \<and>
      (\<forall>k<length ws. \<exists>v1 c1 c2 t2.
         iterE 20000 (adaptive_step (kuramoto_setup N A omega idx) (ws ! k) 0)
             (entry_state (tr ! k), replicate N (Fin (ws ! k))) = Inr (v1, c1) \<and>
         iterE k_cal_n (k_accum_step (kuramoto_setup N A omega idx) (ws ! k))
             (v1, c1, 0, Fin 0)
           = Inr (exit_state (tr ! k), c2, t2, sync_measure (tr ! k))) \<and>
      (\<forall>k. Suc k < length tr \<longrightarrow> entry_state (tr ! Suc k) = exit_state (tr ! k))"
    apply (rule exI [of _ tr])
    using t(1,2,4) a b c apply simp
    done
qed


theorem sweep_state_carried_over_witness:
  "(\<exists>tr. net_trace 2 [[0, 1], [1, 0]] [1 / 100, 2 / 100] = Inr tr \<and>
      net 2 [[0, 1], [1, 0]] [1 / 100, 2 / 100] = Inr (map sync_measure tr) \<and>
      length tr = 2 \<and> entry_state (tr ! 1) = exit_state (tr ! 0)) \<and>
   (\<exists>tr. net_K_trace 2 [[0, 1], [1, 0]] [1 / 100, 2 / 100] [1 / 2, - 1 / 2] [0, 1] [1, 0]
         = Inr tr \<and>
      net_K 2 [[0, 1], [1, 0]] [1 / 100, 2 / 100] [1 / 2, - 1 / 2] [0, 1] [1, 0]
         = Inr (map sync_measure tr) \<and>
      length tr = 2 \<and> entry_state (tr ! 0) = map Fin [0, 1] \<and>
      entry_state (tr ! 1) = exit_state (tr ! 0))"
proof -
  have sq: "0 < (2 :: nat) \<and> square_adj 2 [[0, 1], [1, 0]]"
    by (simp add: square_adj_def)
  have kq: "0 < (2 :: nat) \<and> square_adj 2 [[0, 1], [1, 0]] \<and> length [1 / 2, - 1 / 2 :: real] = 2 \<and>
      length [0, 1 :: real] = 2 \<and> (\<forall>i\<in>set [1, 0 :: nat]. i < 2)"
    by (simp add: square_adj_def)
  note inst = sweep_state_carried_over [where N = 2 and A = "[[0, 1], [1, 0]]"
      and ws = "[1 / 100, 2 / 100]" and omega = "[1 / 2, - 1 / 2]" and ?vars0.0 = "[0, 1]"
      and idx = "[1, 0]"]
  from inst [THEN conjunct1, rule_format, OF sq]
  obtain tr where r: "net_trace 2 [[0, 1], [1, 0]] [1 / 100, 2 / 100] = Inr tr"
      "net 2 [[0, 1], [1, 0]] [1 / 100, 2 / 100] = Inr (map sync_measure tr)"
      "length tr = length [1 / 100, 2 / 100 :: real]"
      "\<forall>k. Suc k < length tr \<longrightarrow> entry_state (tr ! Suc k) = exit_state (tr ! k)"
    by blast
  from inst [THEN conjunct2, rule_format, OF kq]
  obtain tk where k: "net_K_trace 2 [[0, 1], [1, 0]] [1 / 100, 2 / 100] [1 / 2, - 1 / 2] [0, 1]
        [1, 0] = Inr tk"
      "net_K 2 [[0, 1], [1, 0]] [1 / 100, 2 / 100] [1 / 2, - 1 / 2] [0, 1] [1, 0]
         = Inr (map sync_measure tk)"
      "length tk = length [1 / 100, 2 / 100 :: real]"
      "tk \<noteq> [] \<longrightarrow> entry_state (tk ! 0) = map Fin [0, 1]"
      "\<forall>k. Suc k < length tk \<longrightarrow> entry_state (tk ! Suc k) = exit_state (tk ! k)"
    by blast
  have "entry_state (tr ! 1) = exit_state (tr ! 0)"
    using r(3,4) by simp
  moreover have "entry_state (tk ! 1) = exit_state (tk ! 0)" "entry_state (tk ! 0) = map Fin [0, 1]"
    using k(3,4,5) by auto
  ultimately show ?thesis
    using r(1,2,3) k(1,2,3) by auto
qed

section \<open>The warm-up of the piecewise-Rossler driver\<close>







section \<open>The adaptive weight rule\<close>

text \<open>
  Claim C6. The relaxation loop iterates \<open>adaptive_step\<close> and the accumulation loop
  iterates \<open>k_accum_step\<close>, which runs \<open>adaptive_step\<close> first. In every such step,
  before the integration, the weight of each node \<open>j\<close> flagged adaptive is overwritten
  with \<open>w * r_local[j]\<close>, where \<open>w\<close> is the current coupling strength and \<open>r_local\<close>
  the local order parameter of the current state; the weights of the other nodes are
  left as they are, and the Heun step is taken with the new weights.
\<close>

theorem adaptive_weight_rule:
  assumes "kuramoto_wf N P" and "0 < N" and "length vars = N" and "length weights = N"
  shows "\<exists>r_local weights' vars' evs r1.
      local_order_parameter vars (k_pre_ids P) (k_post_ids P) (k_degrees P) = Inr r_local \<and>
      length weights' = N \<and>
      (\<forall>j<N. weights' ! j
                = (if j \<in> set (k_Nodes_adaptive P) then Fin w * r_local ! j else weights ! j)) \<and>
      Heun (kuramoto_field (k_omega P) weights' (k_pre_ids P) (k_post_ids P)) vars t k_dt
        = Inr (vars', evs) \<and>
      adaptive_step P w t (vars, weights) = Inr (vars', weights') \<and>
      order_parameter vars' = Inr r1 \<and>
      k_accum_step P w (vars, weights, t, r)
        = Inr (vars', weights', t + k_dt, r + fdiv r1 (real k_cal_n)) \<and>
      kuramoto_sweep P N vars (w # ws)
        = bindE (iterE 20000 (adaptive_step P w 0) (vars, replicate N (Fin w)))
            (\<lambda>(v1, weights1).
             bindE (iterE k_cal_n (k_accum_step P w) (v1, weights1, 0, Fin 0))
               (\<lambda>(v2, weights2, t2, r).
                bindE (kuramoto_sweep P N v2 ws)
                  (\<lambda>rest. Inr (\<lparr>entry_state = vars, exit_state = v2, sync_measure = r\<rparr>
                                # rest))))"
proof -
  from adaptive_step_ok [OF assms(1,3,4), of w t]
  obtain r_local weights' vars' y1 where a:
    "local_order_parameter vars (k_pre_ids P) (k_post_ids P) (k_degrees P) = Inr r_local"
    "adaptive_step P w t (vars, weights) = Inr (vars', weights')"
    "length vars' = N" "length weights' = N"
    "\<forall>j<N. weights' ! j
       = (if j \<in> set (k_Nodes_adaptive P) then Fin w * r_local ! j else weights ! j)"
    "Heun (\<lambda>v s. kuramoto v s (k_omega P) weights' (k_pre_ids P) (k_post_ids P)) vars t k_dt
       = Inr (vars', [(vars, t), (y1, t + k_dt)])"
    by blast
  have "vars' \<noteq> []" using a(3) assms(2) by auto
  then obtain r1 where r1: "order_parameter vars' = Inr r1"
    using order_parameter_total by blast
  have acc: "k_accum_step P w (vars, weights, t, r)
      = Inr (vars', weights', t + k_dt, r + fdiv r1 (real k_cal_n))"
    using a(2) r1 by (simp add: k_accum_step_def)
  show ?thesis
    apply (rule exI [of _ r_local])
    apply (rule exI [of _ weights'])
    apply (rule exI [of _ vars'])
    apply (rule exI [of _ "[(vars, t), (y1, t + k_dt)]"])
    apply (rule exI [of _ r1])
    using a r1 acc apply (simp add: Let_def kuramoto_field_def)
    done
qed

theorem adaptive_weight_rule_witness:
  "\<exists>r_local weights' vars'.
      local_order_parameter [Fin 0, Fin 1] [1, 0] [0, 1] [1, 1] = Inr r_local \<and>
      adaptive_step \<lparr>k_omega = [Fin (1 / 2), Fin 0], k_pre_ids = [1, 0], k_post_ids = [0, 1],
          k_degrees = [1, 1], k_Nodes_adaptive = [0]\<rparr> (3 / 10) 0
          ([Fin 0, Fin 1], [Fin (3 / 10), Fin (3 / 10)]) = Inr (vars', weights') \<and>
      weights' ! 0 = Fin (3 / 10) * r_local ! 0 \<and> weights' ! 1 = Fin (3 / 10)"
proof -
  let ?P = "\<lparr>k_omega = [Fin (1 / 2), Fin 0], k_pre_ids = [1, 0], k_post_ids = [0, 1],
          k_degrees = [1, 1], k_Nodes_adaptive = [0]\<rparr>"
  have wf: "kuramoto_wf 2 ?P"
    by (simp add: kuramoto_wf_def)
  obtain r_local weights' vars' where h:
      "local_order_parameter [Fin 0, Fin 1] (k_pre_ids ?P) (k_post_ids ?P) (k_degrees ?P)
         = Inr r_local"
      "\<forall>j<2. weights' ! j
                = (if j \<in> set (k_Nodes_adaptive ?P) then Fin (3 / 10) * r_local ! j
                   else [Fin (3 / 10), Fin (3 / 10)] ! j)"
      "adaptive_step ?P (3 / 10) 0 ([Fin 0, Fin 1], [Fin (3 / 10), Fin (3 / 10)])
         = Inr (vars', weights')"
    using adaptive_weight_rule [OF wf, of "[Fin 0, Fin 1]" "[Fin (3 / 10), Fin (3 / 10)]"
        "3 / 10" 0 "Fin 0" "[]"]
    by auto
  have "weights' ! 0 = Fin (3 / 10) * r_local ! 0" "weights' ! 1 = Fin (3 / 10)"
    using h(2) by simp_all
  then show ?thesis
    using h(1,3) by auto
qed

section \<open>The local order parameter of a node without neighbours\<close>

lemma fl_sum_Fin: "(\<Sum>k\<in>K. Fin (f k)) = Fin (\<Sum>k\<in>K. f k)"
proof (cases "finite K")
  case True
  then show ?thesis
    by (induction K rule: finite_induct) (simp_all add: zero_fl_def)
next
  case False
  then show ?thesis by (simp add: zero_fl_def)
qed

lemma fl_norm_value:
  "fdiv (fsqrt (Fin a * Fin a + Fin b * Fin b)) d
     = (if d = 0 then NonFinite else Fin (sqrt (a\<^sup>2 + b\<^sup>2) / d))"
proof -
  have "\<not> a * a + b * b < 0"
    by (simp add: not_less)
  then show ?thesis
    by (simp add: power2_eq_square)
qed

text \<open>
  Against claim C7: in the network with the edge \<open>0 - 1\<close> and the isolated node \<open>2\<close>,
  the local order parameter of node \<open>2\<close> is \<open>0 / 0\<close>, which is not finite.
\<close>

theorem local_order_parameter_isolated_node:
  "local_order_parameter [Fin 0, Fin 0, Fin 0]
       (snd (nonzero [[0, 1, 0], [1, 0, 0], [0, 0, 0]]))
       (fst (nonzero [[0, 1, 0], [1, 0, 0], [0, 0, 0]]))
       (row_sums [[0, 1, 0], [1, 0, 0], [0, 0, 0]])
     = Inr [Fin 1, Fin 1, NonFinite]"
proof -
  have nz: "nonzero [[0, 1, 0], [1, 0, 0], [0, 0, 0]] = ([0, 1], [1, 0])"
    by (simp add: nonzero_def)
  have "local_order_parameter [Fin 0, Fin 0, Fin 0] [1, 0] [0, 1] [1, 1, 0]
      = Inr [Fin 1, Fin 1, NonFinite]"
    by (simp add: local_order_parameter_def fancy_def bincount_def ew2_def zero_fl_def)
  then show ?thesis
    by (simp add: nz row_sums_def)
qed

text \<open>
  Claim C7, amended. For finite phases on a well-formed topology, the local order
  parameter of a node \<open>j\<close> whose degree is not zero is the finite value
  \<open>|\<Sum> exp(i \<phi>[k])| / degree[j]\<close>, the sum over the sources \<open>k\<close> of the edges ending
  at \<open>j\<close>; for a node whose degree is zero the division is by zero and the result is
  not finite. The function has no guard for that case.
\<close>

theorem local_order_parameter_by_degree:
  assumes "length phi = N" and "length degree_lit = N"
    and "length pre_ids = length post_ids"
    and "\<forall>i\<in>set pre_ids. i < N" and "\<forall>i\<in>set post_ids. i < N"
  shows "\<exists>r_local. local_order_parameter (map Fin phi) pre_ids post_ids degree_lit = Inr r_local \<and>
           length r_local = N \<and>
           (\<forall>j<N. r_local ! j =
              (if degree_lit ! j = 0 then NonFinite
               else Fin (sqrt ((\<Sum>k | k < length post_ids \<and> post_ids ! k = j.
                                   cos (phi ! (pre_ids ! k)))\<^sup>2
                             + (\<Sum>k | k < length post_ids \<and> post_ids ! k = j.
                                   sin (phi ! (pre_ids ! k)))\<^sup>2)
                        / degree_lit ! j)))"
proof -
  have len: "length (map Fin phi) = N" using assms(1) by simp
  from local_order_parameter_val [OF len assms(2,3,4,5)]
  obtain r sr si where v:
      "local_order_parameter (map Fin phi) pre_ids post_ids degree_lit = Inr r" "length r = N"
      "\<forall>j<N. sr ! j = (\<Sum>k | k < length post_ids \<and> post_ids ! k = j.
                                fcos (map Fin phi ! (pre_ids ! k))) \<and>
              si ! j = (\<Sum>k | k < length post_ids \<and> post_ids ! k = j.
                                fsin (map Fin phi ! (pre_ids ! k))) \<and>
              r ! j = fdiv (fsqrt (sr ! j * sr ! j + si ! j * si ! j)) (degree_lit ! j)"
    by blast
  have val: "r ! j = (if degree_lit ! j = 0 then NonFinite
               else Fin (sqrt ((\<Sum>k | k < length post_ids \<and> post_ids ! k = j.
                                   cos (phi ! (pre_ids ! k)))\<^sup>2
                             + (\<Sum>k | k < length post_ids \<and> post_ids ! k = j.
                                   sin (phi ! (pre_ids ! k)))\<^sup>2)
                        / degree_lit ! j))"
    if j: "j < N" for j
  proof -
    let ?K = "{k. k < length post_ids \<and> post_ids ! k = j}"
    have in_range: "pre_ids ! k < length phi" if "k \<in> ?K" for k
      using that assms(1,3,4) by (simp add: nth_mem)
    have "sr ! j = (\<Sum>k\<in>?K. fcos (map Fin phi ! (pre_ids ! k)))"
      using v(3) j by blast
    also have "\<dots> = (\<Sum>k\<in>?K. Fin (cos (phi ! (pre_ids ! k))))"
      using in_range by (intro sum.cong) simp_all
    finally have sr: "sr ! j = Fin (\<Sum>k\<in>?K. cos (phi ! (pre_ids ! k)))"
      by (simp add: fl_sum_Fin)
    have "si ! j = (\<Sum>k\<in>?K. fsin (map Fin phi ! (pre_ids ! k)))"
      using v(3) j by blast
    also have "\<dots> = (\<Sum>k\<in>?K. Fin (sin (phi ! (pre_ids ! k))))"
      using in_range by (intro sum.cong) simp_all
    finally have si: "si ! j = Fin (\<Sum>k\<in>?K. sin (phi ! (pre_ids ! k)))"
      by (simp add: fl_sum_Fin)
    have "r ! j = fdiv (fsqrt (sr ! j * sr ! j + si ! j * si ! j)) (degree_lit ! j)"
      using v(3) j by blast
    then show ?thesis
      unfolding sr si fl_norm_value by simp
  qed
  show ?thesis using v(1,2) val by blast
qed

theorem local_order_parameter_by_degree_witness:
  "\<exists>r_local. local_order_parameter (map Fin [0, 0, 0]) [1, 0] [0, 1] [1, 1, 0] = Inr r_local \<and>
     length r_local = 3 \<and> r_local ! 2 = NonFinite \<and>
     r_local ! 0 = Fin (sqrt ((\<Sum>k | k < length [0, 1 :: nat] \<and> [0, 1] ! k = (0 :: nat).
                                   cos ([0, 0, 0] ! ([1, 0] ! k)))\<^sup>2
                             + (\<Sum>k | k < length [0, 1 :: nat] \<and> [0, 1] ! k = (0 :: nat).
                                   sin ([0, 0, 0] ! ([1, 0] ! k)))\<^sup>2)
                        / [1, 1, 0] ! 0)"
proof -
  obtain r_local where h:
      "local_order_parameter (map Fin [0, 0, 0]) [1, 0] [0, 1] [1, 1, 0] = Inr r_local"
      "length r_local = 3"
      "\<forall>j<3. r_local ! j =
              (if [1, 1, 0 :: real] ! j = 0 then NonFinite
               else Fin (sqrt ((\<Sum>k | k < length [0, 1 :: nat] \<and> [0, 1] ! k = j.
                                   cos ([0, 0, 0] ! ([1, 0] ! k)))\<^sup>2
                             + (\<Sum>k | k < length [0, 1 :: nat] \<and> [0, 1] ! k = j.
                                   sin ([0, 0, 0] ! ([1, 0] ! k)))\<^sup>2)
                        / [1, 1, 0] ! j))"
    using local_order_parameter_by_degree [of "[0, 0, 0]" 3 "[1, 1, 0]" "[1, 0]" "[0, 1]"]
    by auto
  have "r_local ! 2 = NonFinite"
    using h(3) [rule_format, of 2] by simp
  moreover have "r_local ! 0 = Fin (sqrt ((\<Sum>k | k < length [0, 1 :: nat] \<and> [0, 1] ! k = (0 :: nat).
                                   cos ([0, 0, 0] ! ([1, 0] ! k)))\<^sup>2
                             + (\<Sum>k | k < length [0, 1 :: nat] \<and> [0, 1] ! k = (0 :: nat).
                                   sin ([0, 0, 0] ! ([1, 0] ! k)))\<^sup>2)
                        / [1, 1, 0] ! 0)"
    using h(3) [rule_format, of 0] by simp
  ultimately show ?thesis
    using h(1,2) by blast
qed

section \<open>Non-finite states are not detected\<close>

text \<open>
  Claim C8, amended. The adaptive Kuramoto driver has no check of the state: when a phase
  is not finite, the next step is taken all the same and leaves that phase non-finite,
  and the sweep runs to its end without an error, reporting a non-finite measure for
  every remaining coupling strength.
\<close>

theorem non_finite_state_not_detected:
  assumes "kuramoto_wf N P" and "length vars = N" and "length weights = N"
    and "j < N" and "vars ! j = NonFinite"
  shows "(\<exists>vars' weights'. adaptive_step P w t (vars, weights) = Inr (vars', weights') \<and>
            length vars' = N \<and> vars' ! j = NonFinite) \<and>
         (\<exists>tr. kuramoto_sweep P N vars ws = Inr tr \<and> length tr = length ws \<and>
            (\<forall>p\<in>set tr. sync_measure p = NonFinite))"
proof
  have "k_poisoned N j (vars, weights)"
    using assms(2,3,4,5) by (simp add: k_poisoned_def k_shape_def)
  then obtain s' where s': "adaptive_step P w t (vars, weights) = Inr s'" "k_poisoned N j s'"
    using adaptive_step_poisoned [OF assms(1)] by blast
  obtain vars' weights' where "s' = (vars', weights')" by (cases s')
  then show "\<exists>vars' weights'. adaptive_step P w t (vars, weights) = Inr (vars', weights') \<and>
            length vars' = N \<and> vars' ! j = NonFinite"
    using s' by (auto simp: k_poisoned_def k_shape_def)
next
  show "\<exists>tr. kuramoto_sweep P N vars ws = Inr tr \<and> length tr = length ws \<and>
            (\<forall>p\<in>set tr. sync_measure p = NonFinite)"
    using kuramoto_sweep_poisoned [OF assms(1,2,4,5)] .
qed

theorem non_finite_state_not_detected_witness:
  "(\<exists>vars' weights'.
      adaptive_step \<lparr>k_omega = [Fin (1 / 2), Fin 0], k_pre_ids = [1, 0], k_post_ids = [0, 1],
          k_degrees = [1, 1], k_Nodes_adaptive = [0, 1]\<rparr> (3 / 10) 0
        ([Fin 0, NonFinite], [Fin (3 / 10), Fin (3 / 10)]) = Inr (vars', weights') \<and>
      length vars' = 2 \<and> vars' ! 1 = NonFinite) \<and>
   (\<exists>tr. kuramoto_sweep \<lparr>k_omega = [Fin (1 / 2), Fin 0], k_pre_ids = [1, 0], k_post_ids = [0, 1],
          k_degrees = [1, 1], k_Nodes_adaptive = [0, 1]\<rparr> 2 [Fin 0, NonFinite]
          [3 / 10, 4 / 10] = Inr tr \<and>
      length tr = length [3 / 10, 4 / 10 :: real] \<and>
      (\<forall>p\<in>set tr. sync_measure p = NonFinite))"
proof -
  let ?P = "\<lparr>k_omega = [Fin (1 / 2), Fin 0], k_pre_ids = [1, 0], k_post_ids = [0, 1],
          k_degrees = [1, 1], k_Nodes_adaptive = [0, 1]\<rparr>"
  have wf: "kuramoto_wf 2 ?P"
    by (simp add: kuramoto_wf_def)
  show ?thesis
    using non_finite_state_not_detected [OF wf, of "[Fin 0, NonFinite]"
        "[Fin (3 / 10), Fin (3 / 10)]" 1 "3 / 10" 0 "[3 / 10, 4 / 10]"]
    by simp
qed

text \<open>
  Against claim C8: with the isolated node \<open>2\<close> the first integration step makes the
  phase of that node non-finite, and the driver returns normally, with a non-finite
  measure.
\<close>

lemma isolated_setup:
  "kuramoto_setup 3 [[0, 1, 0], [1, 0, 0], [0, 0, 0]] [0, 0, 0] [0, 1, 2]
     = \<lparr>k_omega = [Fin 0, Fin 0, Fin 0], k_pre_ids = [1, 0], k_post_ids = [0, 1],
        k_degrees = [1, 1, 0], k_Nodes_adaptive = [0, 1, 2]\<rparr>"
  by (simp add: kuramoto_setup_def nonzero_def row_sums_def f_adaptive_def)

theorem net_K_continues_with_NaN:
  "adaptive_step (kuramoto_setup 3 [[0, 1, 0], [1, 0, 0], [0, 0, 0]] [0, 0, 0] [0, 1, 2])
       (3 / 10) 0 ([Fin 0, Fin 0, Fin 0], [Fin (3 / 10), Fin (3 / 10), Fin (3 / 10)])
     = Inr ([Fin 0, Fin 0, NonFinite], [Fin (3 / 10), Fin (3 / 10), NonFinite]) \<and>
   net_K 3 [[0, 1, 0], [1, 0, 0], [0, 0, 0]] [3 / 10] [0, 0, 0] [0, 0, 0] [0, 1, 2]
     = Inr [NonFinite]"
proof
  show "adaptive_step (kuramoto_setup 3 [[0, 1, 0], [1, 0, 0], [0, 0, 0]] [0, 0, 0] [0, 1, 2])
       (3 / 10) 0 ([Fin 0, Fin 0, Fin 0], [Fin (3 / 10), Fin (3 / 10), Fin (3 / 10)])
     = Inr ([Fin 0, Fin 0, NonFinite], [Fin (3 / 10), Fin (3 / 10), NonFinite])"
    unfolding isolated_setup
    by (simp add: adaptive_step_def local_order_parameter_def fancy_def bincount_def ew2_def
        zero_fl_def setitem_def setrow_def Heun_def Heun_scheme_def call_def kuramoto_def
        kuramoto_field_def vadd_def viadd_def vsmul_def)
next
  let ?P = "\<lparr>k_omega = [Fin 0, Fin 0, Fin 0], k_pre_ids = [1, 0], k_post_ids = [0, 1],
        k_degrees = [1, 1, 0], k_Nodes_adaptive = [0, 1, 2]\<rparr>"
  have wf: "kuramoto_wf 3 ?P"
    by (simp add: kuramoto_wf_def)
  obtain tr where tr: "kuramoto_sweep ?P 3 (map Fin [0, 0, 0]) [3 / 10] = Inr tr"
      "length tr = length [3 / 10 :: real]" "\<forall>p\<in>set tr. sync_measure p = NonFinite"
    using kuramoto_sweep_isolated [OF wf, of "map Fin [0, 0, 0]" 2 "[3 / 10]"] by auto
  then obtain p where "tr = [p]"
    by (cases tr) auto
  then have "map sync_measure tr = [NonFinite]"
    using tr(3) by simp
  then show "net_K 3 [[0, 1, 0], [1, 0, 0], [0, 0, 0]] [3 / 10] [0, 0, 0] [0, 0, 0] [0, 1, 2]
     = Inr [NonFinite]"
    by (simp only: net_K_def net_K_trace_def isolated_setup tr(1) bindE_Inr)
qed

section \<open>Phases are not wrapped\<close>

text \<open>
  Against claim C9: two coupled nodes in phase at \<open>\<pi> - 0.01\<close>, inside \<open>(-\<pi>, \<pi>]\<close>, with
  natural frequency \<open>0.5\<close>, are moved by one Heun step to \<open>\<pi> + 0.015\<close>.
\<close>

theorem Heun_leaves_phase_interval:
  "map_sum id fst
     (Heun (kuramoto_field [Fin (1 / 2), Fin (1 / 2)] [Fin 1, Fin 1] [1, 0] [0, 1])
        [Fin (pi - 1 / 100), Fin (pi - 1 / 100)] 0 k_dt)
     = Inr [Fin (pi + 3 / 200), Fin (pi + 3 / 200)] \<and>
   - pi < pi - 1 / 100 \<and> pi - 1 / 100 \<le> pi \<and> \<not> pi + 3 / 200 \<le> pi"
proof -
  have "2 \<le> pi" by (rule pi_ge_two)
  then show ?thesis
    by (simp add: Heun_def Heun_scheme_def call_def kuramoto_def kuramoto_field_def fancy_def
        ew2_def bincount_def zero_fl_def vadd_def viadd_def vsmul_def k_dt_def)
qed

text \<open>
  Claim C9, amended. In the Kuramoto model the state of a node is one phase, kept as an
  unwrapped real number: a Heun step replaces the phase \<open>\<phi>\<close> of each node by
  \<open>\<phi> + (dt/2) (k1 + k2)\<close> and an RK4 step by \<open>\<phi> + (dt/6) (k1 + 2 k2 + 2 k3 + k4)\<close>,
  with the slopes of the Kuramoto vector field, the number of nodes unchanged; no step
  reduces a phase to \<open>(-\<pi>, \<pi>]\<close>.
\<close>

theorem kuramoto_step_unwrapped:
  assumes "length vars = N" and "length omega = N" and "length c = N"
    and "length pre_ids = length post_ids"
    and "\<forall>i\<in>set pre_ids. i < N" and "\<forall>i\<in>set post_ids. i < N"
  shows "(\<exists>k1 k2 y1 vars'.
      kuramoto vars t omega c pre_ids post_ids = Inr k1 \<and>
      kuramoto y1 (t + dt) omega c pre_ids post_ids = Inr k2 \<and>
      Heun (kuramoto_field omega c pre_ids post_ids) vars t dt
        = Inr (vars', [(vars, t), (y1, t + dt)]) \<and>
      length vars' = N \<and>
      (\<forall>j<N. y1 ! j = vars ! j + Fin dt * k1 ! j \<and>
              vars' ! j = vars ! j + Fin (0.5 * dt) * (k1 ! j + k2 ! j))) \<and>
    (\<exists>k1 k2 k3 k4 y1 y2 y3 vars'.
      kuramoto vars t omega c pre_ids post_ids = Inr k1 \<and>
      kuramoto y1 (t + dt / 2) omega c pre_ids post_ids = Inr k2 \<and>
      kuramoto y2 (t + dt / 2) omega c pre_ids post_ids = Inr k3 \<and>
      kuramoto y3 (t + dt) omega c pre_ids post_ids = Inr k4 \<and>
      RK4_K (kuramoto_field omega c pre_ids post_ids) vars t dt
        = Inr (vars', [(vars, t), (y1, t + dt / 2), (y2, t + dt / 2), (y3, t + dt)]) \<and>
      length vars' = N \<and>
      (\<forall>j<N. vars' ! j = vars ! j
                 + Fin (dt / 6) * (k1 ! j + Fin 2 * k2 ! j + Fin 2 * k3 ! j + k4 ! j)))"
proof
  let ?g = "\<lambda>v s. kuramoto v s omega c pre_ids post_ids"
  have g: "\<exists>k. ?g v s = Inr k \<and> length k = length vars" if "length v = length vars" for v s
    using kuramoto_len [of v N omega c pre_ids post_ids s] that assms by simp
  from Heun_vec [of vars ?g t dt, OF g]
  show "\<exists>k1 k2 y1 vars'.
      kuramoto vars t omega c pre_ids post_ids = Inr k1 \<and>
      kuramoto y1 (t + dt) omega c pre_ids post_ids = Inr k2 \<and>
      Heun (kuramoto_field omega c pre_ids post_ids) vars t dt
        = Inr (vars', [(vars, t), (y1, t + dt)]) \<and>
      length vars' = N \<and>
      (\<forall>j<N. y1 ! j = vars ! j + Fin dt * k1 ! j \<and>
              vars' ! j = vars ! j + Fin (0.5 * dt) * (k1 ! j + k2 ! j))"
    unfolding assms(1) kuramoto_field_def by blast
  from RK4_vec [of vars ?g t dt, OF g]
  show "\<exists>k1 k2 k3 k4 y1 y2 y3 vars'.
      kuramoto vars t omega c pre_ids post_ids = Inr k1 \<and>
      kuramoto y1 (t + dt / 2) omega c pre_ids post_ids = Inr k2 \<and>
      kuramoto y2 (t + dt / 2) omega c pre_ids post_ids = Inr k3 \<and>
      kuramoto y3 (t + dt) omega c pre_ids post_ids = Inr k4 \<and>
      RK4_K (kuramoto_field omega c pre_ids post_ids) vars t dt
        = Inr (vars', [(vars, t), (y1, t + dt / 2), (y2, t + dt / 2), (y3, t + dt)]) \<and>
      length vars' = N \<and>
      (\<forall>j<N. vars' ! j = vars ! j
                 + Fin (dt / 6) * (k1 ! j + Fin 2 * k2 ! j + Fin 2 * k3 ! j + k4 ! j))"
    unfolding assms(1) kuramoto_field_def by blast
qed

theorem kuramoto_step_unwrapped_witness:
  "(\<exists>vars' evs. Heun (kuramoto_field [Fin (1 / 2), Fin (1 / 2)] [Fin 1, Fin 1] [1, 0] [0, 1])
        [Fin 3, Fin 3] 0 k_dt = Inr (vars', evs) \<and> length vars' = 2) \<and>
   (\<exists>vars' evs. RK4_K (kuramoto_field [Fin (1 / 2), Fin (1 / 2)] [Fin 1, Fin 1] [1, 0] [0, 1])
        [Fin 3, Fin 3] 0 k_dt = Inr (vars', evs) \<and> length vars' = 2)"
  using kuramoto_step_unwrapped [of "[Fin 3, Fin 3]" 2 "[Fin (1 / 2), Fin (1 / 2)]"
      "[Fin 1, Fin 1]" "[1, 0]" "[0, 1]" 0 k_dt]
  by simp blast

end
